theory Spec2Isabelle
  imports Main "HOL-Library.List_Lexorder" "HOL-Library.Multiset"
begin

section \<open>Data model\<close>

text \<open>
  Array-oriented set operations of \<^verbatim>\<open>jax/_src/numpy/setops.py\<close>.

  A scalar of an array is either an ordinary value or NaN. Only arrays of an inexact
  dtype can hold NaN. The ordinary values are taken from any linearly ordered type
  (integers, booleans, finite floating values); floating-point rounding plays no part in
  the set operations, which only compare, sort and select scalars.
\<close>

datatype 'a elem = Val 'a | NaN

datatype dtype = Integral | Floating | ComplexFloating

datatype error = ValueError | IndexError

text \<open>
  An array seen along its working axis, as \<^verbatim>\<open>_unique_sorted_mask\<close> sees it after
  \<^verbatim>\<open>moveaxis(ar, axis, 0)\<close>: \<^verbatim>\<open>size, *out_shape = aux.shape\<close>. The field \<open>out_prod\<close> is
  \<^verbatim>\<open>_prod(out_shape)\<close>, the number of scalars of one element, and \<open>elems\<close> lists the
  \<^verbatim>\<open>size\<close> elements, each flattened to a row: \<^verbatim>\<open>aux.reshape(size, _prod(out_shape))\<close>.
  A one-dimensional array has \<open>out_prod = 1\<close> (the product of the empty shape).
\<close>

record 'a ndarray =
  dtype :: dtype
  out_prod :: nat
  elems :: "'a elem list list"

definition wf_array :: "'a ndarray \<Rightarrow> bool" where
  "wf_array ar \<longleftrightarrow>
     list_all (\<lambda>r. length r = out_prod ar) (elems ar) \<and>
     (dtype ar = Integral \<longrightarrow> list_all (\<lambda>r. list_all (\<lambda>x. x \<noteq> NaN) r) (elems ar))"

definition wf_flat :: "dtype \<Rightarrow> 'a elem list \<Rightarrow> bool" where
  "wf_flat dt xs \<longleftrightarrow> (dt = Integral \<longrightarrow> list_all (\<lambda>x. x \<noteq> NaN) xs)"

text \<open>The \<^verbatim>\<open>(size, 1)\<close> view of a one-dimensional array, and back.\<close>

definition of_flat :: "dtype \<Rightarrow> 'a elem list \<Rightarrow> 'a ndarray" where
  "of_flat dt xs = \<lparr>dtype = dt, out_prod = 1, elems = map (\<lambda>x. [x]) xs\<rparr>"

definition flatten :: "'a elem list list \<Rightarrow> 'a elem list" where
  "flatten rs = concat rs"

section \<open>Collaborating array primitives\<close>

text \<open>
  The array library that \<^verbatim>\<open>setops.py\<close> imports (\<^verbatim>\<open>lax\<close>, \<^verbatim>\<open>lax_numpy\<close>) is not among the
  sources; its operations are modelled here from section 6 of the spec (the collaborator
  interface) and sections 3 and 4.1.

  Modelled from the spec: the sort order of scalars (section 3), which the sorting
  routines apply: ordinary values in their own order, NaN last, all NaN alike.
\<close>

instantiation elem :: (linorder) linorder
begin

fun less_eq_elem :: "'a elem \<Rightarrow> 'a elem \<Rightarrow> bool" where
  "less_eq_elem (Val a) (Val b) = (a \<le> b)"
| "less_eq_elem (Val a) NaN = True"
| "less_eq_elem NaN (Val b) = False"
| "less_eq_elem NaN NaN = True"

definition less_elem :: "'a elem \<Rightarrow> 'a elem \<Rightarrow> bool" where
  "less_elem x y \<longleftrightarrow> x \<le> y \<and> \<not> y \<le> x"

instance
proof
  fix x y z :: "'a elem"
  show "(x < y) = (x \<le> y \<and> \<not> y \<le> x)" by (simp add: less_elem_def)
  show "x \<le> x" by (cases x) auto
  show "x \<le> y \<Longrightarrow> y \<le> z \<Longrightarrow> x \<le> z" by (cases x; cases y; cases z) auto
  show "x \<le> y \<Longrightarrow> y \<le> x \<Longrightarrow> x = y" by (cases x; cases y) auto
  show "x \<le> y \<or> y \<le> x" by (cases x; cases y) auto
qed

end

text \<open>
  Modelled from the spec: the elementwise comparisons \<^verbatim>\<open>==\<close> (\<^verbatim>\<open>lax.eq\<close>), \<^verbatim>\<open>!=\<close>
  (\<^verbatim>\<open>lax.ne\<close>) and \<^verbatim>\<open>isnan\<close> are not among the sources; direct comparison of NaN with
  NaN is false (section 3).
\<close>

fun isnan :: "'a elem \<Rightarrow> bool" where
  "isnan NaN = True"
| "isnan (Val a) = False"

fun lax_eq :: "'a elem \<Rightarrow> 'a elem \<Rightarrow> bool" where
  "lax_eq (Val a) (Val b) = (a = b)"
| "lax_eq NaN y = False"
| "lax_eq x NaN = False"

definition lax_ne :: "'a elem \<Rightarrow> 'a elem \<Rightarrow> bool" where
  "lax_ne x y = (\<not> lax_eq x y)"

text \<open>
  Modelled from the spec: \<^verbatim>\<open>lexsort\<close> (section 4.1, the ordering primitive) is not
  among the sources. On the keys \<^verbatim>\<open>aux.reshape(size, _prod(out_shape)).T[::-1]\<close> it
  returns the permutation of positions that puts the rows in non-decreasing
  lexicographic order (column 0 the primary key), ties broken by original position.
\<close>

definition lexsort :: "'a::linorder elem list list \<Rightarrow> nat list" where
  "lexsort rs = sort_key (\<lambda>i. rs ! i) [0..<length rs]"

text \<open>
  Modelled from the spec: \<^verbatim>\<open>nonzero\<close> (section 6, boolean-mask-to-index extraction)
  is not among the sources. Without a size it lists the positions of the true entries;
  with \<^verbatim>\<open>size=n\<close> it keeps the first \<open>n\<close> of them and pads with index 0.
\<close>

definition nonzero :: "bool list \<Rightarrow> nat list" where
  "nonzero msk = filter (\<lambda>i. msk ! i) [0..<length msk]"

definition nonzero_size :: "bool list \<Rightarrow> nat \<Rightarrow> nat list" where
  "nonzero_size msk n = take n (nonzero msk @ replicate n 0)"

text \<open>
  Modelled from the spec: \<^verbatim>\<open>mask.sum()\<close> (the number of true entries), \<^verbatim>\<open>cumsum\<close> (the
  running count of true entries), \<^verbatim>\<open>diff\<close> (differences of consecutive entries) and
  \<^verbatim>\<open>arange\<close> are not among the sources.
\<close>

definition mask_sum :: "bool list \<Rightarrow> nat" where
  "mask_sum msk = length (filter (\<lambda>b. b) msk)"

fun cumsum_from :: "int \<Rightarrow> bool list \<Rightarrow> int list" where
  "cumsum_from acc [] = []"
| "cumsum_from acc (b # bs) =
     (acc + (if b then 1 else 0)) # cumsum_from (acc + (if b then 1 else 0)) bs"

definition cumsum :: "bool list \<Rightarrow> int list" where
  "cumsum msk = cumsum_from 0 msk"

definition diff :: "nat list \<Rightarrow> int list" where
  "diff idx = map (\<lambda>(a, b). int a - int b) (zip (tl idx) (butlast idx))"

definition arange :: "nat \<Rightarrow> nat list" where
  "arange n = [0..<n]"

text \<open>
  Modelled from the spec: indexing \<^verbatim>\<open>a[ind]\<close> is not among the sources. It selects by
  a boolean mask (the entries where the mask is true) or by an array of positions.
  Positions past the end are clamped to the last entry, as the gather of the array
  library does; every position the set operations build is in range.
\<close>

datatype index = BoolMask "bool list" | Positions "nat list"

fun getitem :: "'v list \<Rightarrow> index \<Rightarrow> 'v list" where
  "getitem a (BoolMask m) = map fst (filter snd (zip a m))"
| "getitem a (Positions ps) = map (\<lambda>i. a ! min i (length a - 1)) ps"

text \<open>
  Modelled from the spec: \<^verbatim>\<open>zeros(n).at[perm].set(vals)\<close> is not among the sources; it
  is the scatter of section 4.2 (each value written at its position); positions out of
  range are dropped.
\<close>

definition at_set :: "int list \<Rightarrow> nat list \<Rightarrow> int list \<Rightarrow> int list" where
  "at_set base ps vals = fold (\<lambda>(p, v) acc. acc[p := v]) (zip ps vals) base"

section \<open>The uniqueness extractor\<close>

text \<open>
  The comparison of adjacent sorted elements in \<^verbatim>\<open>_unique_sorted_mask\<close>: for an inexact
  dtype \<^verbatim>\<open>lax.ne(x, y) & ~(isnan(x) & isnan(y))\<close>, otherwise \<^verbatim>\<open>lax.ne\<close>; then
  \<^verbatim>\<open>any\<close> over the scalars of the element.
\<close>

definition neq :: "dtype \<Rightarrow> 'a elem \<Rightarrow> 'a elem \<Rightarrow> bool" where
  "neq dt x y =
     (if dt \<noteq> Integral then lax_ne x y \<and> \<not> (isnan x \<and> isnan y) else lax_ne x y)"

definition row_neq :: "dtype \<Rightarrow> 'a elem list \<Rightarrow> 'a elem list \<Rightarrow> bool" where
  "row_neq dt r s = list_ex (\<lambda>(x, y). neq dt x y) (zip r s)"

text \<open>
  \<^verbatim>\<open>_unique_sorted_mask(ar, axis)\<close>. For a complex dtype every scalar that is NaN in
  some component is first replaced by NaN. When the elements have no scalars
  (\<^verbatim>\<open>_prod(out_shape) == 0\<close>) the permutation is the placeholder \<^verbatim>\<open>zeros(1)\<close> and
  \<^verbatim>\<open>aux[perm]\<close> has shape \<^verbatim>\<open>(1, 0)\<close>: one element of no scalars. The size of
  \<^verbatim>\<open>aux\<close> is its number of rows times \<open>out_prod\<close>.
\<close>

definition unique_sorted_mask ::
  "'a::linorder ndarray \<Rightarrow> 'a elem list list \<times> bool list \<times> nat list" where
  "unique_sorted_mask ar =
     (let aux0 = (if dtype ar = ComplexFloating
                  then map (map (\<lambda>x. if isnan x then NaN else x)) (elems ar)
                  else elems ar);
          (sz, perm) = (if out_prod ar = 0 then (1, [0])
                        else (length aux0, lexsort aux0));
          aux = (if out_prod ar = 0 then [[]] else getitem aux0 (Positions perm))
      in if length aux * out_prod ar \<noteq> 0
         then (aux,
               take 1 (replicate sz True) @
                 map (\<lambda>(r, s). row_neq (dtype ar) r s) (zip (tl aux) (butlast aux)),
               perm)
         else (aux, replicate sz False, perm))"

text \<open>
  The outputs of \<^verbatim>\<open>_unique\<close>: the unique values, and the optional outputs, each present
  exactly when its flag was set.
\<close>

record 'v unique_ret =
  uvalues :: "'v list"
  ret_index :: "nat list option"
  ret_inverse :: "int list option"
  ret_counts :: "int list option"
  ret_true_size :: "nat option"

text \<open>
  Modelled from the spec: \<^verbatim>\<open>where\<close> is not among the sources; it selects elementwise
  with broadcasting. Here \<^verbatim>\<open>where(valid, result, fill_value)\<close> on rows, with \<^verbatim>\<open>valid\<close>
  of shape \<^verbatim>\<open>(size, 1, ...)\<close>: a result of one row is broadcast to the length of
  \<^verbatim>\<open>valid\<close>.
\<close>

definition where_rows :: "bool list \<Rightarrow> 'a elem list list \<Rightarrow> 'a elem \<Rightarrow> 'a elem list list" where
  "where_rows valid result fill =
     (let res = (if length result = 1 then replicate (length valid) (hd result) else result)
      in map (\<lambda>(v, r). if v then r else map (\<lambda>_. fill) r) (zip valid res))"

text \<open>
  \<^verbatim>\<open>_unique(ar, axis, return_index, return_inverse, return_counts, size, fill_value,
  return_true_size)\<close>. The size is a natural number (\<^verbatim>\<open>operator.index\<close> of a size that
  \<^verbatim>\<open>nonzero\<close> accepts); \<^verbatim>\<open>ar.shape[axis]\<close> is the number of elements.
\<close>

definition unique_inner ::
  "'a::linorder ndarray \<Rightarrow> bool \<Rightarrow> bool \<Rightarrow> bool \<Rightarrow> nat option \<Rightarrow> 'a elem option \<Rightarrow> bool
     \<Rightarrow> error + 'a elem list unique_ret" where
  "unique_inner ar return_index return_inverse return_counts sz fill_value return_true_size =
     (if length (elems ar) = 0 \<and> sz \<noteq> None \<and> sz \<noteq> Some 0 \<and> fill_value = None
      then Inl ValueError
      else
        let (aux, msk, perm) = unique_sorted_mask ar;
            aux_size = length aux * out_prod ar;
            ind = (case sz of None \<Rightarrow> BoolMask msk
                   | Some n \<Rightarrow> Positions (nonzero_size msk n));
            result = (if aux_size \<noteq> 0 then getitem aux ind else aux);
            result = (case (sz, fill_value) of
                        (Some n, Some fv) \<Rightarrow>
                          if length result \<noteq> 0
                          then where_rows (map (\<lambda>i. i < mask_sum msk) (arange n)) result fv
                          else replicate n (replicate (out_prod ar) fv)
                      | _ \<Rightarrow> result)
        in Inr \<lparr>
          uvalues = result,
          ret_index =
            (if return_index
             then Some (if aux_size \<noteq> 0 then getitem perm ind else perm)
             else None),
          ret_inverse =
            (if return_inverse
             then Some (if aux_size \<noteq> 0
                        then at_set (replicate (length msk) 0) perm
                               (map (\<lambda>c. c - 1) (cumsum msk))
                        else replicate (length (elems ar)) 0)
             else None),
          ret_counts =
            (if return_counts
             then Some (if aux_size \<noteq> 0
                        then (case sz of
                                None \<Rightarrow> diff (nonzero msk @ [length msk])
                              | Some n \<Rightarrow>
                                  let idx = nonzero_size msk (n + 1)
                                  in diff (take 1 idx @
                                           map (\<lambda>i. if i \<noteq> 0 then i else length msk) (drop 1 idx)))
                        else if length (elems ar) \<noteq> 0 then [int (length (elems ar))]
                        else [])
             else None),
          ret_true_size = (if return_true_size then Some (mask_sum msk) else None)
        \<rparr>)"

text \<open>
  \<^verbatim>\<open>unique(ar, return_index, return_inverse, return_counts, axis=None, size=...,
  fill_value=...)\<close>: with no axis the array is flattened and the working axis is 0; the
  result of \<^verbatim>\<open>_unique\<close> is one-dimensional again.
\<close>

definition unique ::
  "dtype \<Rightarrow> 'a::linorder elem list \<Rightarrow> bool \<Rightarrow> bool \<Rightarrow> bool \<Rightarrow> nat option \<Rightarrow> 'a elem option
     \<Rightarrow> error + 'a elem unique_ret" where
  "unique dt ar return_index return_inverse return_counts sz fill_value =
     (case unique_inner (of_flat dt ar) return_index return_inverse return_counts sz fill_value False of
        Inl e \<Rightarrow> Inl e
      | Inr r \<Rightarrow> Inr \<lparr>uvalues = flatten (uvalues r), ret_index = ret_index r,
                      ret_inverse = ret_inverse r, ret_counts = ret_counts r,
                      ret_true_size = ret_true_size r\<rparr>)"

section \<open>Membership and the derived set operators\<close>

text \<open>
  \<^verbatim>\<open>in1d(ar1, ar2, assume_unique, invert)\<close> on raveled arrays; \<^verbatim>\<open>assume_unique\<close> is
  deleted unused. The grid \<^verbatim>\<open>ar1[:, None] != ar2[None, :]\<close> is reduced row by row with
  \<^verbatim>\<open>all\<close>, the grid of \<^verbatim>\<open>==\<close> with \<^verbatim>\<open>any\<close>.
\<close>

definition in1d :: "'a elem list \<Rightarrow> 'a elem list \<Rightarrow> bool \<Rightarrow> bool \<Rightarrow> bool list" where
  "in1d ar1 ar2 assume_unique invert =
     (if invert then map (\<lambda>x. list_all (\<lambda>y. lax_ne x y) ar2) ar1
      else map (\<lambda>x. list_ex (\<lambda>y. lax_eq x y) ar2) ar1)"

text \<open>
  \<^verbatim>\<open>setdiff1d(ar1, ar2, assume_unique, size, fill_value)\<close> on one-dimensional arrays.
  The fill value defaults to the zero of the dtype. \<^verbatim>\<open>size and ar1.size\<close> is
  \<^verbatim>\<open>None\<close> for no size, 0 for size 0 and \<^verbatim>\<open>ar1.size\<close> otherwise. Reading \<^verbatim>\<open>ar1[0]\<close>
  from an array of no entries is an index error.
\<close>

definition setdiff1d ::
  "dtype \<Rightarrow> 'a::{linorder,zero} elem list \<Rightarrow> 'a elem list \<Rightarrow> bool \<Rightarrow> nat option
     \<Rightarrow> 'a elem option \<Rightarrow> error + 'a elem list" where
  "setdiff1d dt ar1 ar2 assume_unique sz fill_value =
     (let fv = (case fill_value of None \<Rightarrow> Val 0 | Some v \<Rightarrow> v) in
      if length ar1 = 0
      then Inr (replicate (case sz of None \<Rightarrow> 0 | Some n \<Rightarrow> n) fv)
      else
        case (if \<not> assume_unique
              then (case unique dt ar1 False False False
                           (case sz of None \<Rightarrow> None
                            | Some n \<Rightarrow> Some (if n = 0 then 0 else length ar1))
                           None of
                      Inl e \<Rightarrow> Inl e
                    | Inr r \<Rightarrow> Inr (uvalues r))
              else Inr ar1) of
          Inl e \<Rightarrow> Inl e
        | Inr a1 \<Rightarrow>
            let msk = in1d a1 ar2 False True in
            (case sz of
               None \<Rightarrow> Inr (getitem a1 (BoolMask msk))
             | Some n \<Rightarrow>
                 (case (if \<not> assume_unique
                        then (if a1 = [] then Inl IndexError
                              else
                                let n_unique = int (length a1) + 1
                                      - int (length (filter (\<lambda>x. lax_eq x (a1 ! 0)) a1))
                                in Inr (map (\<lambda>(i, m). if int i < n_unique then m else False)
                                          (zip (arange (length a1)) msk)))
                        else Inr msk) of
                    Inl e \<Rightarrow> Inl e
                  | Inr msk' \<Rightarrow>
                      Inr (map (\<lambda>(i, v). if i < mask_sum msk' then v else fv)
                             (zip (arange n)
                                  (getitem a1 (Positions (nonzero_size msk' n))))))))"

text \<open>
  Modelled from the spec: \<^verbatim>\<open>sort\<close> of a one-dimensional array is not among the
  sources; it is the ordering primitive of section 4.1 on scalars (non-decreasing, NaN
  last), here \<^const>\<open>sort\<close>.

  \<^verbatim>\<open>_intersect1d_sorted_mask(ar1, ar2, return_indices=False)\<close>.
\<close>

definition intersect1d_sorted_mask ::
  "'a::linorder elem list \<Rightarrow> 'a elem list \<Rightarrow> 'a elem list \<times> bool list" where
  "intersect1d_sorted_mask ar1 ar2 =
     (let ar = ar1 @ ar2;
          aux = sort ar;
          msk = map (\<lambda>(x, y). lax_eq x y) (zip (tl aux) (butlast aux))
      in (aux, msk))"

text \<open>
  \<^verbatim>\<open>intersect1d(ar1, ar2, assume_unique, return_indices=False)\<close> on one-dimensional
  arrays, each with its dtype: \<^verbatim>\<open>int1d = aux[:-1][mask]\<close>.
\<close>

definition intersect1d ::
  "dtype \<Rightarrow> 'a::linorder elem list \<Rightarrow> dtype \<Rightarrow> 'a elem list \<Rightarrow> bool \<Rightarrow> error + 'a elem list" where
  "intersect1d dt1 ar1 dt2 ar2 assume_unique =
     (case (if \<not> assume_unique
            then (case unique dt1 ar1 False False False None None of
                    Inl e \<Rightarrow> Inl e
                  | Inr r1 \<Rightarrow>
                      (case unique dt2 ar2 False False False None None of
                         Inl e \<Rightarrow> Inl e
                       | Inr r2 \<Rightarrow> Inr (uvalues r1, uvalues r2)))
            else Inr (ar1, ar2)) of
        Inl e \<Rightarrow> Inl e
      | Inr (a1, a2) \<Rightarrow>
          let (aux, msk) = intersect1d_sorted_mask a1 a2
          in Inr (getitem (butlast aux) (BoolMask msk)))"

section \<open>Auxiliary notions for the proofs\<close>

text \<open>
  The flags of a sorted list that mark where a value differs from its predecessor,
  given the predecessor of the head.
\<close>

fun changes :: "'v \<Rightarrow> 'v list \<Rightarrow> bool list" where
  "changes p [] = []"
| "changes p (x # xs) = (x \<noteq> p) # changes x xs"

text \<open>
  Equality under the NaN-equal-to-NaN rule of the spec (section 3): two scalars are the
  same when they compare equal or are both NaN; two elements are the same when all
  their scalars are.
\<close>

definition same_elem :: "'a elem \<Rightarrow> 'a elem \<Rightarrow> bool" where
  "same_elem x y \<longleftrightarrow> lax_eq x y \<or> (isnan x \<and> isnan y)"

definition same_row :: "'a elem list \<Rightarrow> 'a elem list \<Rightarrow> bool" where
  "same_row r s \<longleftrightarrow> list_all2 same_elem r s"

text \<open>
  The set difference in the words of the spec (section 4.4): the distinct elements of
  \<open>a\<close> that compare equal to no element of \<open>b\<close>, in sorted order, cut to the first
  \<open>n\<close> or padded with \<open>v\<close>.
\<close>

definition setdiff_spec ::
  "'a::linorder elem list \<Rightarrow> 'a elem list \<Rightarrow> nat \<Rightarrow> 'a elem \<Rightarrow> 'a elem list" where
  "setdiff_spec a b n v =
     take n (filter (\<lambda>x. \<not> list_ex (\<lambda>y. lax_eq x y) b) (remdups_adj (sort a))
             @ replicate n v)"

text \<open>
  The entries of a list that compare equal (\<^verbatim>\<open>==\<close>) to their successor, given the
  entry before the head: the selection \<^verbatim>\<open>aux[:-1][aux[1:] == aux[:-1]]\<close>.
\<close>

fun adjacent_equal :: "'a elem \<Rightarrow> 'a elem list \<Rightarrow> 'a elem list" where
  "adjacent_equal p [] = []"
| "adjacent_equal p (x # xs) = (if lax_eq x p then [p] else []) @ adjacent_equal x xs"

text \<open>No truncation: no size, or a size of at least the number of distinct elements.\<close>

definition no_truncation :: "'a ndarray \<Rightarrow> nat option \<Rightarrow> bool" where
  "no_truncation ar sz =
     (case sz of None \<Rightarrow> True | Some n \<Rightarrow> card (set (elems ar)) \<le> n)"

section \<open>Facts about the primitives\<close>

subsection \<open>Comparison of scalars and elements\<close>

lemma canon_nan_id: "(if isnan x then NaN else x) = x"
  by (cases x) auto

lemma lax_ne_iff: "x \<noteq> NaN \<Longrightarrow> y \<noteq> NaN \<Longrightarrow> lax_ne x y \<longleftrightarrow> x \<noteq> y"
  by (cases x; cases y) (auto simp: lax_ne_def)

lemma neq_inexact: "dt \<noteq> Integral \<Longrightarrow> neq dt x y \<longleftrightarrow> x \<noteq> y"
  by (cases x; cases y) (auto simp: neq_def lax_ne_def)

lemma neq_integral: "x \<noteq> NaN \<Longrightarrow> y \<noteq> NaN \<Longrightarrow> neq Integral x y \<longleftrightarrow> x \<noteq> y"
  by (simp add: neq_def lax_ne_iff)

lemma neq_iff:
  "(dt = Integral \<longrightarrow> x \<noteq> NaN \<and> y \<noteq> NaN) \<Longrightarrow> neq dt x y \<longleftrightarrow> x \<noteq> y"
  by (cases "dt = Integral") (auto simp: neq_inexact neq_integral)

lemma row_neq_iff:
  "length r = length s \<Longrightarrow>
   (dt = Integral \<longrightarrow> (\<forall>x \<in> set r. x \<noteq> NaN) \<and> (\<forall>x \<in> set s. x \<noteq> NaN)) \<Longrightarrow>
   row_neq dt r s \<longleftrightarrow> r \<noteq> s"
proof (induction r s rule: list_induct2)
  case Nil
  then show ?case by (simp add: row_neq_def)
next
  case (Cons x xs y ys)
  have "neq dt x y \<longleftrightarrow> x \<noteq> y" using Cons.prems by (intro neq_iff) auto
  moreover have "row_neq dt xs ys \<longleftrightarrow> xs \<noteq> ys" using Cons by auto
  ultimately show ?case by (auto simp: row_neq_def)
qed

subsection \<open>The sort permutation\<close>

lemma mset_lexsort: "mset (lexsort rs) = mset [0..<length rs]"
  by (simp add: lexsort_def)

lemma set_lexsort: "set (lexsort rs) = {0..<length rs}"
  by (simp add: lexsort_def)

lemma distinct_lexsort: "distinct (lexsort rs)"
  by (simp add: lexsort_def)

lemma length_lexsort: "length (lexsort rs) = length rs"
  by (simp add: lexsort_def)

lemma map_insort_key: "map f (insort_key f x xs) = insort (f x) (map f xs)"
  by (induction xs) auto

lemma map_sort_key: "map f (sort_key f xs) = sort (map f xs)"
  by (induction xs) (auto simp: map_insort_key)

lemma gather_lexsort: "getitem rs (Positions (lexsort rs)) = sort rs"
proof -
  have "getitem rs (Positions (lexsort rs)) = map (\<lambda>i. rs ! i) (lexsort rs)"
    using set_lexsort[of rs] by (auto simp: min_def)
  also have "\<dots> = sort (map (\<lambda>i. rs ! i) [0..<length rs])"
    unfolding lexsort_def by (rule map_sort_key)
  also have "map (\<lambda>i. rs ! i) [0..<length rs] = rs" by (rule map_nth)
  finally show ?thesis .
qed

subsection \<open>Adjacent changes and removal of adjacent repeats\<close>

lemma changes_zip:
  "map (\<lambda>(r, s). r \<noteq> s) (zip (tl (p # xs)) (butlast (p # xs))) = changes p xs"
  by (induction xs arbitrary: p) auto

lemma getitem_changes:
  "getitem (p # xs) (BoolMask (True # changes p xs)) = remdups_adj (p # xs)"
  by (induction xs arbitrary: p) auto

lemma distinct_remdups_adj_sorted: "sorted xs \<Longrightarrow> distinct (remdups_adj xs)"
  by (induction xs rule: remdups_adj.induct) (auto)

section \<open>The sorted array, its mask and its permutation\<close>

lemma canon_rows_id: "map (map (\<lambda>x. if isnan x then NaN else x)) rs = rs"
  by (simp add: canon_nan_id)

lemma usm_zero_width:
  "out_prod ar = 0 \<Longrightarrow> unique_sorted_mask ar = ([[]], [False], [0])"
  by (simp add: unique_sorted_mask_def)

lemma usm_no_elems:
  "out_prod ar \<noteq> 0 \<Longrightarrow> elems ar = [] \<Longrightarrow> unique_sorted_mask ar = ([], [], [])"
  by (simp add: unique_sorted_mask_def lexsort_def)

lemma wf_array_rows:
  assumes "wf_array ar" "r \<in> set (elems ar)"
  shows "length r = out_prod ar" "dtype ar = Integral \<Longrightarrow> \<forall>x \<in> set r. x \<noteq> NaN"
  using assms by (auto simp: wf_array_def list_all_iff)

lemma zero_width_elems:
  assumes "wf_array ar" "out_prod ar = 0"
  shows "elems ar = replicate (length (elems ar)) []"
  using assms by (intro replicate_eqI) (auto simp: wf_array_def list_all_iff)

lemma row_neq_sorted_rows:
  assumes wf: "wf_array ar"
  shows "map (\<lambda>(r, s). row_neq (dtype ar) r s) (zip (tl (sort (elems ar))) (butlast (sort (elems ar))))
       = map (\<lambda>(r, s). r \<noteq> s) (zip (tl (sort (elems ar))) (butlast (sort (elems ar))))"
proof (rule map_cong[OF refl])
  fix z assume z: "z \<in> set (zip (tl (sort (elems ar))) (butlast (sort (elems ar))))"
  obtain r s where rs: "z = (r, s)" by (cases z)
  from z rs have "r \<in> set (tl (sort (elems ar)))" "s \<in> set (butlast (sort (elems ar)))"
    by (auto dest: set_zip_leftD set_zip_rightD)
  then have mem: "r \<in> set (elems ar)" "s \<in> set (elems ar)"
    by (auto dest: list.set_sel(2)[rotated] in_set_butlastD)
  have "row_neq (dtype ar) r s \<longleftrightarrow> r \<noteq> s"
    using wf_array_rows[OF wf mem(1)] wf_array_rows[OF wf mem(2)]
    by (intro row_neq_iff) auto
  then show "(case z of (r, s) \<Rightarrow> row_neq (dtype ar) r s) = (case z of (r, s) \<Rightarrow> r \<noteq> s)"
    by (simp add: rs)
qed

lemma usm_elems:
  assumes wf: "wf_array ar" and k: "out_prod ar \<noteq> 0" and ne: "elems ar \<noteq> []"
  shows "unique_sorted_mask ar =
           (sort (elems ar),
            True # changes (hd (sort (elems ar))) (tl (sort (elems ar))),
            lexsort (elems ar))"
proof -
  let ?s = "sort (elems ar)"
  have len: "length ?s \<noteq> 0" using ne by simp
  then have sne: "?s \<noteq> []" by (auto simp del: length_sort)
  then have s: "?s = hd ?s # tl ?s" by simp
  have "map (\<lambda>(r, s). r \<noteq> s) (zip (tl ?s) (butlast ?s)) = changes (hd ?s) (tl ?s)"
    using changes_zip[of "hd ?s" "tl ?s"] s by simp
  with row_neq_sorted_rows[OF wf]
  have m: "map (\<lambda>(r, s). row_neq (dtype ar) r s) (zip (tl ?s) (butlast ?s)) = changes (hd ?s) (tl ?s)"
    by simp
  have t: "min (Suc 0) (length (elems ar)) = Suc 0"
    using ne by (cases "elems ar") auto
  show ?thesis
    unfolding unique_sorted_mask_def canon_rows_id
    using k sne m t by (simp add: Let_def gather_lexsort del: getitem.simps)
qed

section \<open>Empty inputs and membership\<close>

lemma where_rows_zero_width:
  "where_rows (map (\<lambda>i. i < (0::nat)) (arange n)) [[]] v = replicate n []"
  by (auto simp: where_rows_def arange_def intro!: nth_equalityI)

lemma unique_inner_no_elems:
  assumes "elems ar = []"
  shows "unique_inner ar ri rv rc (Some n) (Some v) rt =
           Inr \<lparr>uvalues = replicate n (replicate (out_prod ar) v),
                ret_index = (if ri then Some (if out_prod ar = 0 then [0] else []) else None),
                ret_inverse = (if rv then Some [] else None),
                ret_counts = (if rc then Some [] else None),
                ret_true_size = (if rt then Some 0 else None)\<rparr>"
proof (cases "out_prod ar = 0")
  case True
  then show ?thesis
    using assms where_rows_zero_width[of n v]
    by (simp add: unique_inner_def usm_zero_width mask_sum_def del: getitem.simps)
next
  case False
  then show ?thesis
    using assms
    by (simp add: unique_inner_def usm_no_elems mask_sum_def del: getitem.simps)
qed

lemma unique_inner_raises:
  "unique_inner ar ri rv rc sz fv rt = Inl e \<longleftrightarrow>
     e = ValueError \<and> elems ar = [] \<and> sz \<noteq> None \<and> sz \<noteq> Some 0 \<and> fv = None"
  by (auto simp: unique_inner_def Let_def split: prod.splits)

lemma unique_raises:
  "unique dt xs ri rv rc sz fv = Inl e \<longleftrightarrow>
     e = ValueError \<and> xs = [] \<and> sz \<noteq> None \<and> sz \<noteq> Some 0 \<and> fv = None"
proof -
  have "unique dt xs ri rv rc sz fv = Inl e \<longleftrightarrow>
          unique_inner (of_flat dt xs) ri rv rc sz fv False = Inl e"
    by (auto simp: unique_def split: sum.splits)
  then show ?thesis by (simp add: unique_inner_raises of_flat_def)
qed

lemma concat_replicate_single: "concat (replicate n [v]) = replicate n v"
  by (induction n) auto

lemma unique_no_size_returns:
  "\<exists>r. unique dt xs ri rv rc None fv = Inr r"
  by (cases "unique dt xs ri rv rc None fv") (auto simp: unique_raises)

text \<open>
  C5: \<^verbatim>\<open>in1d(a, b)\<close> has one entry per element of \<open>a\<close>; the entry is true exactly when the
  element compares equal (\<^verbatim>\<open>==\<close>) to some element of \<open>b\<close>, and with \<^verbatim>\<open>invert=True\<close>
  exactly when it compares equal to none: the inverted result is the pointwise negation.
\<close>

theorem in1d_membership:
  "length (in1d a b au invert) = length a
   \<and> (\<forall>i < length a. in1d a b au False ! i \<longleftrightarrow> (\<exists>y \<in> set b. lax_eq (a ! i) y))
   \<and> (\<forall>i < length a. in1d a b au True ! i \<longleftrightarrow> \<not> (\<exists>y \<in> set b. lax_eq (a ! i) y))
   \<and> in1d a b au True = map Not (in1d a b au False)"
  by (auto simp: in1d_def list_all_iff list_ex_iff lax_ne_def)

theorem in1d_membership_witness:
  "(1::nat) < length [Val 1, Val (5::int)]
   \<and> in1d [Val 1, Val (5::int)] [Val 1, Val 2, Val 3] False False = [True, False]
   \<and> in1d [Val 1, Val (5::int)] [Val 1, Val 2, Val 3] False True = [False, True]
   \<and> \<not> (\<exists>y \<in> set [Val 1, Val 2, Val 3]. lax_eq ([Val 1, Val (5::int)] ! 1) y)"
  using in1d_membership[of "[Val 1, Val (5::int)]" "[Val 1, Val 2, Val 3]" False False]
  by (simp add: in1d_def lax_ne_def)

text \<open>
  C6: for an input with no elements along the working axis and a size \<open>n > 0\<close>,
  \<^verbatim>\<open>unique\<close> raises (a \<^verbatim>\<open>ValueError\<close>) exactly when no fill value is given; with a fill
  value \<open>v\<close> it returns \<open>n\<close> elements, all equal to \<open>v\<close>.
\<close>

theorem unique_empty_with_size:
  assumes "elems ar = []" and "0 < n"
  shows "((\<exists>e. unique_inner ar ri rv rc (Some n) fv rt = Inl e) \<longleftrightarrow> fv = None)
       \<and> (fv = None \<longrightarrow> unique_inner ar ri rv rc (Some n) fv rt = Inl ValueError)
       \<and> (\<forall>v. fv = Some v \<longrightarrow>
            (\<exists>r. unique_inner ar ri rv rc (Some n) fv rt = Inr r
                 \<and> uvalues r = replicate n (replicate (out_prod ar) v)))
       \<and> ((\<exists>e. unique dt [] ri rv rc (Some n) fv = Inl e) \<longleftrightarrow> fv = None)
       \<and> (fv = None \<longrightarrow> unique dt [] ri rv rc (Some n) fv = Inl ValueError)
       \<and> (\<forall>v. fv = Some v \<longrightarrow>
            (\<exists>r. unique dt [] ri rv rc (Some n) fv = Inr r \<and> uvalues r = replicate n v))"
proof -
  have a: "(\<exists>e. unique_inner ar ri rv rc (Some n) fv rt = Inl e) \<longleftrightarrow> fv = None"
    using assms by (simp add: unique_inner_raises)
  have b: "fv = None \<longrightarrow> unique_inner ar ri rv rc (Some n) fv rt = Inl ValueError"
    using assms by (simp add: unique_inner_raises)
  have c: "\<forall>v. fv = Some v \<longrightarrow>
            (\<exists>r. unique_inner ar ri rv rc (Some n) fv rt = Inr r
                 \<and> uvalues r = replicate n (replicate (out_prod ar) v))"
    using assms(1) by (simp add: unique_inner_no_elems)
  have d: "(\<exists>e. unique dt [] ri rv rc (Some n) fv = Inl e) \<longleftrightarrow> fv = None"
    using assms(2) by (simp add: unique_raises)
  have e: "fv = None \<longrightarrow> unique dt [] ri rv rc (Some n) fv = Inl ValueError"
    using assms(2) by (simp add: unique_raises)
  have f: "\<forall>v. fv = Some v \<longrightarrow>
            (\<exists>r. unique dt [] ri rv rc (Some n) fv = Inr r \<and> uvalues r = replicate n v)"
    by (simp add: unique_def unique_inner_no_elems of_flat_def flatten_def concat_replicate_single)
  from a b c d e f show ?thesis by blast
qed

theorem unique_empty_with_size_witness:
  "elems \<lparr>dtype = Integral, out_prod = 1, elems = ([] :: int elem list list)\<rparr> = []
   \<and> (0::nat) < 2
   \<and> (\<exists>r. unique Integral ([] :: int elem list) False False False (Some 2) (Some (Val 0)) = Inr r
          \<and> uvalues r = [Val 0, Val 0])
   \<and> unique Integral ([] :: int elem list) False False False (Some 2) None = Inl ValueError"
  using unique_empty_with_size[where ar = "\<lparr>dtype = Integral, out_prod = 1, elems = ([] :: int elem list list)\<rparr>"
      and n = 2 and fv = "Some (Val (0::int))" and dt = Integral and ri = False and rv = False and rc = False]
    unique_empty_with_size[where ar = "\<lparr>dtype = Integral, out_prod = 1, elems = ([] :: int elem list list)\<rparr>"
      and n = 2 and fv = "None :: int elem option" and dt = Integral and ri = False and rv = False and rc = False]
  by (simp add: numeral_2_eq_2)

text \<open>
  C7, as the code has it: the length-1 placeholder permutation and the length-1 mask
  forced to false are produced exactly for arrays whose elements hold no scalars (the
  extents other than the working axis have product zero); an array that is empty along
  the working axis, with elements that hold scalars, gets an empty permutation and an
  empty mask.
\<close>

theorem placeholder_for_zero_width:
  "(out_prod ar = 0 \<longrightarrow> unique_sorted_mask ar = ([[]], [False], [0]))
   \<and> (out_prod ar \<noteq> 0 \<and> elems ar = [] \<longrightarrow> unique_sorted_mask ar = ([], [], []))"
  by (simp add: usm_zero_width usm_no_elems)

theorem placeholder_for_zero_width_witness:
  "out_prod \<lparr>dtype = Floating, out_prod = 0, elems = ([[], []] :: int elem list list)\<rparr> = 0
   \<and> unique_sorted_mask \<lparr>dtype = Floating, out_prod = 0, elems = ([[], []] :: int elem list list)\<rparr>
       = ([[]], [False], [0])
   \<and> out_prod \<lparr>dtype = Floating, out_prod = 3, elems = ([] :: int elem list list)\<rparr> \<noteq> 0
   \<and> elems \<lparr>dtype = Floating, out_prod = 3, elems = ([] :: int elem list list)\<rparr> = []
   \<and> unique_sorted_mask \<lparr>dtype = Floating, out_prod = 3, elems = ([] :: int elem list list)\<rparr>
       = ([], [], [])"
  using placeholder_for_zero_width[of "\<lparr>dtype = Floating, out_prod = 0, elems = ([[], []] :: int elem list list)\<rparr>"]
    placeholder_for_zero_width[of "\<lparr>dtype = Floating, out_prod = 3, elems = ([] :: int elem list list)\<rparr>"]
  by simp

text \<open>
  The empty one-dimensional array is empty along its working axis, and its permutation
  and mask have length 0, not 1.
\<close>

theorem empty_axis_no_placeholder:
  "\<not> (length (snd (snd (unique_sorted_mask (of_flat Floating ([] :: int elem list))))) = 1
      \<and> fst (snd (unique_sorted_mask (of_flat Floating ([] :: int elem list)))) = [False])"
  by (simp add: unique_sorted_mask_def of_flat_def lexsort_def)

section \<open>Unique values without a size\<close>

lemma length_changes: "length (changes p xs) = length xs"
  by (induction xs arbitrary: p) auto

lemma nonzero_Cons:
  "nonzero (b # bs) = (if b then [0] else []) @ map Suc (nonzero bs)"
proof -
  have "[0..<length (b # bs)] = 0 # map Suc [0..<length bs]"
    using upt_conv_Cons[of 0 "Suc (length bs)"] map_Suc_upt[of 0 "length bs"] by simp
  then show ?thesis
    by (simp add: nonzero_def filter_map comp_def)
qed

lemma nonzero_Nil: "nonzero [] = []"
  by (simp add: nonzero_def)

lemma length_nonzero: "length (nonzero m) = mask_sum m"
  by (induction m) (auto simp: nonzero_Cons nonzero_Nil mask_sum_def)

lemma nonzero_bound: "i \<in> set (nonzero m) \<Longrightarrow> i < length m"
  by (auto simp: nonzero_def)

lemma bool_index_length:
  "length a = length m \<Longrightarrow> length (getitem a (BoolMask m)) = mask_sum m"
  by (induction a m rule: list_induct2) (auto simp: mask_sum_def)

lemma gather_nonzero:
  "length a = length m \<Longrightarrow> getitem a (Positions (nonzero m)) = getitem a (BoolMask m)"
proof (induction a m rule: list_induct2)
  case Nil
  then show ?case by (simp add: nonzero_Nil)
next
  case (Cons x xs b bs)
  have "map (\<lambda>i. (x # xs) ! min i (length (x # xs) - 1)) (map Suc (nonzero bs))
      = map (\<lambda>i. xs ! min i (length xs - 1)) (nonzero bs)"
    using Cons.hyps by (auto simp: min_def dest: nonzero_bound)
  with Cons.IH show ?case by (simp add: nonzero_Cons)
qed

lemma mask_sum_changes:
  "mask_sum (True # changes p xs) = length (remdups_adj (p # xs))"
  using bool_index_length[of "p # xs" "True # changes p xs"]
  by (simp add: getitem_changes length_changes del: getitem.simps remdups_adj.simps)

lemma sorted_remdups_adj_card:
  "sorted xs \<Longrightarrow> length (remdups_adj xs) = card (set xs)"
  using distinct_card[OF distinct_remdups_adj_sorted, of xs] by simp

lemma nonzero_size_pad:
  "mask_sum m \<le> n \<Longrightarrow> nonzero_size m n = nonzero m @ replicate (n - mask_sum m) 0"
  by (simp add: nonzero_size_def length_nonzero)

lemma nonzero_size_trunc:
  "n \<le> mask_sum m \<Longrightarrow> nonzero_size m n = take n (nonzero m)"
  by (simp add: nonzero_size_def length_nonzero)

lemma length_nonzero_size: "length (nonzero_size m n) = n"
  by (simp add: nonzero_size_def)

lemma getitem_sorted_mask:
  "xs \<noteq> [] \<Longrightarrow> getitem xs (BoolMask (True # changes (hd xs) (tl xs))) = remdups_adj xs"
  using getitem_changes[of "hd xs" "tl xs"] by simp

lemma sort_not_Nil: "xs \<noteq> [] \<Longrightarrow> sort xs \<noteq> []"
  by (metis length_0_conv length_sort)

lemma uvalues_no_size:
  assumes wf: "wf_array ar" and k: "out_prod ar \<noteq> 0"
    and r: "unique_inner ar ri rv rc None fv rt = Inr r"
  shows "uvalues r = remdups_adj (sort (elems ar))"
proof (cases "elems ar = []")
  case True
  with k r show ?thesis
    by (auto simp: unique_inner_def usm_no_elems)
next
  case False
  have "uvalues r = getitem (sort (elems ar))
          (BoolMask (True # changes (hd (sort (elems ar))) (tl (sort (elems ar)))))"
    using r k False sort_not_Nil[OF False]
    by (auto simp: unique_inner_def usm_elems[OF wf k False] Let_def simp del: getitem.simps
        split: option.splits)
  then show ?thesis
    by (simp add: getitem_sorted_mask sort_not_Nil[OF False] del: getitem.simps)
qed

lemma uvalues_zero_width:
  assumes k: "out_prod ar = 0"
    and r: "unique_inner ar ri rv rc sz fv rt = Inr r"
  shows "uvalues r = (case (sz, fv) of (Some n, Some v) \<Rightarrow> replicate n [] | _ \<Rightarrow> [[]])"
  using r k where_rows_zero_width
  by (auto simp: unique_inner_def usm_zero_width mask_sum_def split: option.splits if_splits)

lemma wf_array_of_flat: "wf_array (of_flat dt xs) \<longleftrightarrow> wf_flat dt xs"
  by (auto simp: wf_array_def wf_flat_def of_flat_def list_all_iff)

lemma insort_single:
  "insort [a] (map (\<lambda>x. [x]) xs) = map (\<lambda>x. [x]) (insort a xs)"
  by (induction xs) auto

lemma sort_single: "sort (map (\<lambda>x. [x]) xs) = map (\<lambda>x. [x]) (sort xs)"
  by (induction xs) (auto simp: insort_single)

lemma remdups_adj_single:
  "remdups_adj (map (\<lambda>x. [x]) xs) = map (\<lambda>x. [x]) (remdups_adj xs)"
  by (rule remdups_adj_map_injective) (auto simp: inj_on_def)

lemma flatten_single: "flatten (map (\<lambda>x. [x]) xs) = xs"
  by (induction xs) (auto simp: flatten_def)

lemma unique_Inr:
  "unique dt xs ri rv rc sz fv = Inr r \<longleftrightarrow>
     (\<exists>r'. unique_inner (of_flat dt xs) ri rv rc sz fv False = Inr r' \<and>
           r = \<lparr>uvalues = flatten (uvalues r'), ret_index = ret_index r',
                ret_inverse = ret_inverse r', ret_counts = ret_counts r',
                ret_true_size = ret_true_size r'\<rparr>)"
  by (auto simp: unique_def split: sum.splits)

lemma unique_values_no_size:
  assumes wf: "wf_flat dt xs" and r: "unique dt xs ri rv rc None fv = Inr r"
  shows "uvalues r = remdups_adj (sort xs)"
proof -
  from r obtain r' where r': "unique_inner (of_flat dt xs) ri rv rc None fv False = Inr r'"
    and u: "uvalues r = flatten (uvalues r')"
    by (auto simp: unique_Inr)
  have k: "out_prod (of_flat dt xs) \<noteq> 0" by (simp add: of_flat_def)
  have wa: "wf_array (of_flat dt xs)" using wf by (simp add: wf_array_of_flat)
  have "uvalues r' = remdups_adj (sort (elems (of_flat dt xs)))"
    by (rule uvalues_no_size[OF wa k r'])
  then show ?thesis
    using u by (simp add: of_flat_def sort_single remdups_adj_single flatten_single)
qed

lemma unique_flags_off:
  assumes "unique dt xs False False False sz fv = Inr r"
  shows "r = \<lparr>uvalues = uvalues r, ret_index = None, ret_inverse = None,
              ret_counts = None, ret_true_size = None\<rparr>"
  using assms
  by (auto simp: unique_Inr unique_inner_def Let_def split: prod.splits if_splits)

lemma same_elem_iff: "same_elem x y \<longleftrightarrow> x = y"
  by (cases x; cases y) (auto simp: same_elem_def)

lemma same_row_iff: "same_row r s \<longleftrightarrow> r = s"
  by (auto simp: same_row_def list_all2_conv_all_nth same_elem_iff list_eq_iff_nth_eq)

lemma changes_nth:
  "i < length xs \<Longrightarrow> changes p xs ! i \<longleftrightarrow> xs ! i \<noteq> (p # xs) ! i"
proof (induction xs arbitrary: p i)
  case Nil
  then show ?case by simp
next
  case (Cons x xs)
  then show ?case by (cases i) auto
qed

lemma sorted_mask_nth:
  assumes "xs \<noteq> []" "i < length xs"
  shows "(True # changes (hd xs) (tl xs)) ! i \<longleftrightarrow> i = 0 \<or> xs ! i \<noteq> xs ! (i - 1)"
proof (cases i)
  case 0
  then show ?thesis by simp
next
  case (Suc k)
  have xs: "xs = hd xs # tl xs" using assms(1) by simp
  have k: "k < length (tl xs)" using assms(2) Suc by simp
  have "changes (hd xs) (tl xs) ! k \<longleftrightarrow> tl xs ! k \<noteq> (hd xs # tl xs) ! k"
    by (rule changes_nth[OF k])
  moreover have "xs ! Suc k = tl xs ! k" using xs by (metis nth_Cons_Suc)
  ultimately show ?thesis using Suc xs by simp
qed

text \<open>
  C1: for a one-dimensional (flattened) array \<open>x\<close> and no size, no two entries of
  \<^verbatim>\<open>unique(x)\<close> are the same under the NaN-equal rule and every entry of \<open>x\<close> is the same as
  some entry of \<^verbatim>\<open>unique(x)\<close>. The mask of \<^verbatim>\<open>_unique_sorted_mask\<close> is as long as the sorted
  array \<open>aux\<close> (a sorted rearrangement of \<open>x\<close>), true at position 0 and, at a position
  \<open>i > 0\<close>, true exactly when \<open>aux ! i\<close> differs from \<open>aux ! (i - 1)\<close> under that rule; the
  unique values are the entries of \<open>aux\<close> where the mask is true.
\<close>

theorem unique_distinct_cover:
  assumes "wf_flat dt x"
  shows "\<exists>r aux msk perm.
           unique dt x ri rv rc None fv = Inr r
         \<and> unique_sorted_mask (of_flat dt x) = (aux, msk, perm)
         \<and> (\<forall>i j. i < j \<and> j < length (uvalues r) \<longrightarrow> \<not> same_elem (uvalues r ! i) (uvalues r ! j))
         \<and> (\<forall>e \<in> set x. \<exists>u \<in> set (uvalues r). same_elem e u)
         \<and> sorted aux \<and> mset aux = mset (map (\<lambda>e. [e]) x)
         \<and> length msk = length x
         \<and> (\<forall>i < length x. msk ! i \<longleftrightarrow> (i = 0 \<or> \<not> same_row (aux ! i) (aux ! (i - 1))))
         \<and> uvalues r = flatten (getitem aux (BoolMask msk))"
proof -
  obtain r where r: "unique dt x ri rv rc None fv = Inr r"
    using unique_no_size_returns by blast
  have u: "uvalues r = remdups_adj (sort x)"
    by (rule unique_values_no_size[OF assms r])
  have d: "distinct (uvalues r)"
    unfolding u by (rule distinct_remdups_adj_sorted) simp
  have distinct_part:
    "\<forall>i j. i < j \<and> j < length (uvalues r) \<longrightarrow> \<not> same_elem (uvalues r ! i) (uvalues r ! j)"
    using d by (auto simp: same_elem_iff nth_eq_iff_index_eq)
  have cover_part: "\<forall>e \<in> set x. \<exists>u \<in> set (uvalues r). same_elem e u"
    unfolding u by (auto simp: same_elem_iff)
  let ?rows = "map (\<lambda>e. [e]) x"
  have wa: "wf_array (of_flat dt x)" using assms by (simp add: wf_array_of_flat)
  have k: "out_prod (of_flat dt x) \<noteq> 0" by (simp add: of_flat_def)
  have el: "elems (of_flat dt x) = ?rows" by (simp add: of_flat_def)
  show ?thesis
  proof (cases "x = []")
    case True
    have "unique_sorted_mask (of_flat dt x) = ([], [], [])"
      using usm_no_elems[OF k] True el by simp
    with r u True show ?thesis by (simp add: flatten_def)
  next
    case False
    let ?s = "sort ?rows"
    let ?m = "True # changes (hd ?s) (tl ?s)"
    have ne: "elems (of_flat dt x) \<noteq> []" using False el by simp
    have sne: "?s \<noteq> []" using False by (intro sort_not_Nil) simp
    have usm: "unique_sorted_mask (of_flat dt x) = (?s, ?m, lexsort ?rows)"
      using usm_elems[OF wa k ne] el by simp
    have len: "length ?m = length x"
      using sne by (simp add: length_changes) (metis False length_0_conv length_map length_sort Suc_pred length_greater_0_conv)
    have mask_part:
      "\<forall>i < length x. ?m ! i \<longleftrightarrow> (i = 0 \<or> \<not> same_row (?s ! i) (?s ! (i - 1)))"
      using sorted_mask_nth[OF sne] by (simp add: same_row_iff)
    have sel: "uvalues r = flatten (getitem ?s (BoolMask ?m))"
      unfolding u getitem_sorted_mask[OF sne]
      by (simp add: sort_single remdups_adj_single flatten_single)
    show ?thesis
      using r usm distinct_part cover_part len mask_part sel
      by (intro exI[of _ r] exI[of _ ?s] exI[of _ ?m] exI[of _ "lexsort ?rows"]) simp
  qed
qed

theorem unique_distinct_cover_witness:
  "wf_flat Integral [Val 3, Val 1, Val 2, Val 1, Val (3::int)]
   \<and> unique Integral [Val 3, Val 1, Val 2, Val 1, Val (3::int)] False False False None None
       = Inr \<lparr>uvalues = [Val 1, Val 2, Val 3], ret_index = None, ret_inverse = None,
              ret_counts = None, ret_true_size = None\<rparr>
   \<and> unique_sorted_mask (of_flat Integral [Val 3, Val 1, Val 2, Val 1, Val (3::int)])
       = ([[Val 1], [Val 1], [Val 2], [Val 3], [Val 3]], [True, False, True, True, False],
          [1, 3, 2, 0, 4])"
proof -
  have w: "wf_flat Integral [Val 3, Val 1, Val 2, Val 1, Val (3::int)]"
    by code_simp
  have e1: "unique Integral [Val 3, Val 1, Val 2, Val 1, Val (3::int)] False False False None None
       = Inr \<lparr>uvalues = [Val 1, Val 2, Val 3], ret_index = None, ret_inverse = None,
              ret_counts = None, ret_true_size = None\<rparr>"
    by code_simp
  have e2: "unique_sorted_mask (of_flat Integral [Val 3, Val 1, Val 2, Val 1, Val (3::int)])
       = ([[Val 1], [Val 1], [Val 2], [Val 3], [Val 3]], [True, False, True, True, False],
          [1, 3, 2, 0, 4])"
    by code_simp
  show ?thesis
    using unique_distinct_cover[OF w, of False False False None] w e1 e2 by simp
qed

text \<open>
  C9: without a size, \<^verbatim>\<open>unique\<close> is idempotent: \<^verbatim>\<open>unique(unique(x)) == unique(x)\<close>.
\<close>

theorem unique_idempotent:
  assumes "wf_flat dt x"
  shows "\<exists>r. unique dt x False False False None None = Inr r
            \<and> unique dt (uvalues r) False False False None None = Inr r"
proof -
  obtain r where r: "unique dt x False False False None None = Inr r"
    using unique_no_size_returns by blast
  have u: "uvalues r = remdups_adj (sort x)"
    by (rule unique_values_no_size[OF assms r])
  have wf': "wf_flat dt (uvalues r)"
    using assms by (simp add: u wf_flat_def list_all_iff)
  obtain r2 where r2: "unique dt (uvalues r) False False False None None = Inr r2"
    using unique_no_size_returns by blast
  have srt: "sorted (uvalues r)" by (simp add: u)
  have dst: "distinct (uvalues r)"
    unfolding u by (rule distinct_remdups_adj_sorted) simp
  have "uvalues r2 = remdups_adj (sort (uvalues r))"
    by (rule unique_values_no_size[OF wf' r2])
  also have "\<dots> = uvalues r"
    using srt dst by (simp add: sorted_sort_id remdups_adj_distinct)
  finally have "r2 = r"
    using unique_flags_off[OF r] unique_flags_off[OF r2] by simp
  with r r2 show ?thesis by simp
qed

theorem unique_idempotent_witness:
  "wf_flat Floating [NaN, Val 3, Val 1, NaN, Val (3::int)]
   \<and> unique Floating [NaN, Val 3, Val 1, NaN, Val (3::int)] False False False None None
       = Inr \<lparr>uvalues = [Val 1, Val 3, NaN], ret_index = None, ret_inverse = None,
              ret_counts = None, ret_true_size = None\<rparr>
   \<and> unique Floating [Val 1, Val (3::int), NaN] False False False None None
       = Inr \<lparr>uvalues = [Val 1, Val 3, NaN], ret_index = None, ret_inverse = None,
              ret_counts = None, ret_true_size = None\<rparr>"
proof -
  have w: "wf_flat Floating [NaN, Val 3, Val 1, NaN, Val (3::int)]"
    by code_simp
  have e: "unique Floating [NaN, Val 3, Val 1, NaN, Val (3::int)] False False False None None
       = Inr \<lparr>uvalues = [Val 1, Val 3, NaN], ret_index = None, ret_inverse = None,
              ret_counts = None, ret_true_size = None\<rparr>"
    by code_simp
  show ?thesis
    using unique_idempotent[OF w] w e by simp
qed

text \<open>
  Along any working axis and without a size, the unique values are free of duplicates
  and cover the elements of the input.
\<close>

lemma unique_inner_distinct_cover:
  assumes wf: "wf_array ar" and r: "unique_inner ar ri rv rc None fv rt = Inr r"
  shows "distinct (uvalues r) \<and> set (elems ar) \<subseteq> set (uvalues r)"
proof (cases "out_prod ar = 0")
  case True
  have "elems ar = replicate (length (elems ar)) []" by (rule zero_width_elems[OF wf True])
  then have "set (elems ar) \<subseteq> {[]}" by (metis set_replicate_conv_if empty_subsetI subset_refl)
  then show ?thesis using uvalues_zero_width[OF True r] by simp
next
  case False
  have "uvalues r = remdups_adj (sort (elems ar))" by (rule uvalues_no_size[OF wf False r])
  then show ?thesis using distinct_remdups_adj_sorted[of "sort (elems ar)"] by simp
qed

section \<open>Padding by the default fill value\<close>

lemma sorted_hd_Min: "sorted xs \<Longrightarrow> xs \<noteq> [] \<Longrightarrow> hd xs = Min (set xs)"
  by (cases xs) (auto intro!: Min_eqI[symmetric])

lemma hd_sort_Min: "xs \<noteq> [] \<Longrightarrow> hd (sort xs) = Min (set xs)"
  using sorted_hd_Min[of "sort xs"] sort_not_Nil[of xs] by simp

lemma gather_append:
  "getitem a (Positions (ps @ qs)) = getitem a (Positions ps) @ getitem a (Positions qs)"
  by simp

lemma gather_zeros: "a \<noteq> [] \<Longrightarrow> getitem a (Positions (replicate k 0)) = replicate k (hd a)"
  by (cases a) (auto simp: map_replicate_const)

lemma mask_sum_sorted:
  assumes "xs \<noteq> []"
  shows "mask_sum (True # changes (hd (sort xs)) (tl (sort xs))) = card (set xs)"
proof -
  have s: "sort xs = hd (sort xs) # tl (sort xs)"
    using sort_not_Nil[OF assms] by simp
  have "mask_sum (True # changes (hd (sort xs)) (tl (sort xs))) = length (remdups_adj (sort xs))"
    using mask_sum_changes[of "hd (sort xs)" "tl (sort xs)"] s by simp
  also have "\<dots> = card (set xs)"
    using sorted_remdups_adj_card[of "sort xs"] by simp
  finally show ?thesis .
qed

lemma length_sorted_mask:
  "xs \<noteq> [] \<Longrightarrow> length (True # changes (hd (sort xs)) (tl (sort xs))) = length xs"
  using sort_not_Nil[of xs]
  by (simp add: length_changes)

lemma gather_sized_no_truncation:
  assumes ne: "xs \<noteq> []" and n: "card (set xs) \<le> n"
  shows "getitem (sort xs)
           (Positions (nonzero_size (True # changes (hd (sort xs)) (tl (sort xs))) n))
       = remdups_adj (sort xs) @ replicate (n - card (set xs)) (Min (set xs))"
proof -
  let ?s = "sort xs"
  let ?m = "True # changes (hd ?s) (tl ?s)"
  have sne: "?s \<noteq> []" by (rule sort_not_Nil[OF ne])
  have len: "length ?s = length ?m" using length_sorted_mask[OF ne] by simp
  have "nonzero_size ?m n = nonzero ?m @ replicate (n - card (set xs)) 0"
    using nonzero_size_pad[of ?m n] n mask_sum_sorted[OF ne] by simp
  then have "getitem ?s (Positions (nonzero_size ?m n))
      = getitem ?s (Positions (nonzero ?m)) @ getitem ?s (Positions (replicate (n - card (set xs)) 0))"
    by (simp only: gather_append)
  also have "getitem ?s (Positions (nonzero ?m)) = remdups_adj ?s"
    using gather_nonzero[OF len] getitem_sorted_mask[OF sne] by simp
  also have "getitem ?s (Positions (replicate (n - card (set xs)) 0))
      = replicate (n - card (set xs)) (Min (set xs))"
    using gather_zeros[OF sne, of "n - card (set xs)"] hd_sort_Min[OF ne]
    by (simp del: getitem.simps)
  finally show ?thesis .
qed

lemma uvalues_sized_no_fill:
  assumes wf: "wf_array ar" and k: "out_prod ar \<noteq> 0" and ne: "elems ar \<noteq> []"
    and r: "unique_inner ar ri rv rc (Some n) None rt = Inr r"
  shows "uvalues r = getitem (sort (elems ar))
           (Positions (nonzero_size (True # changes (hd (sort (elems ar))) (tl (sort (elems ar)))) n))"
  using r k ne sort_not_Nil[OF ne]
  by (auto simp: unique_inner_def usm_elems[OF wf k ne] Let_def simp del: getitem.simps)

text \<open>
  C10: for an array with at least one scalar, a size \<open>n\<close> larger than the number of
  distinct elements and no fill value, \<^verbatim>\<open>unique\<close> raises nothing and returns the distinct
  elements in sorted order followed by copies of the minimum element (the first unique
  value), whatever the zero of the dtype is.
\<close>

theorem default_fill_is_minimum:
  assumes "wf_array ar" and "elems ar \<noteq> []" and "out_prod ar \<noteq> 0"
    and "card (set (elems ar)) < n"
  shows "\<exists>r. unique_inner ar ri rv rc (Some n) None rt = Inr r
            \<and> uvalues r = remdups_adj (sort (elems ar))
                            @ replicate (n - card (set (elems ar))) (Min (set (elems ar)))
            \<and> length (uvalues r) = n
            \<and> hd (uvalues r) = Min (set (elems ar))"
proof -
  have "\<not> (\<exists>e. unique_inner ar ri rv rc (Some n) None rt = Inl e)"
    using assms(2) by (simp add: unique_inner_raises)
  then obtain r where r: "unique_inner ar ri rv rc (Some n) None rt = Inr r"
    by (cases "unique_inner ar ri rv rc (Some n) None rt") auto
  have le: "card (set (elems ar)) \<le> n" using assms(4) by simp
  have u: "uvalues r = remdups_adj (sort (elems ar))
                        @ replicate (n - card (set (elems ar))) (Min (set (elems ar)))"
    using uvalues_sized_no_fill[OF assms(1) assms(3) assms(2) r]
      gather_sized_no_truncation[OF assms(2) le] by simp
  have l: "length (uvalues r) = n"
    using le sorted_remdups_adj_card[of "sort (elems ar)"] by (simp add: u)
  have "hd (uvalues r) = hd (remdups_adj (sort (elems ar)))"
    using sort_not_Nil[OF assms(2)] by (simp add: u)
  then have h: "hd (uvalues r) = Min (set (elems ar))"
    using hd_sort_Min[OF assms(2)] by simp
  from r u l h show ?thesis by blast
qed

theorem default_fill_is_minimum_witness:
  "wf_array (of_flat Integral [Val 3, Val 1, Val 2, Val 1, Val (3::int)])
   \<and> elems (of_flat Integral [Val 3, Val 1, Val 2, Val 1, Val (3::int)]) \<noteq> []
   \<and> out_prod (of_flat Integral [Val 3, Val 1, Val 2, Val 1, Val (3::int)]) \<noteq> 0
   \<and> card (set (elems (of_flat Integral [Val 3, Val 1, Val 2, Val 1, Val (3::int)]))) < 5
   \<and> (\<exists>r. unique_inner (of_flat Integral [Val 3, Val 1, Val 2, Val 1, Val (3::int)])
             False False False (Some 5) None False = Inr r
          \<and> uvalues r = [[Val 1], [Val 2], [Val 3], [Val 1], [Val 1]])"
proof -
  let ?ar = "of_flat Integral [Val 3, Val 1, Val 2, Val 1, Val (3::int)]"
  have w: "wf_array ?ar" by code_simp
  have e: "elems ?ar \<noteq> []" by code_simp
  have k: "out_prod ?ar \<noteq> 0" by code_simp
  have c: "card (set (elems ?ar)) < 5" by code_simp
  have v: "unique_inner ?ar False False False (Some 5) None False
             = Inr \<lparr>uvalues = [[Val 1], [Val 2], [Val 3], [Val 1], [Val 1]], ret_index = None,
                    ret_inverse = None, ret_counts = None, ret_true_size = None\<rparr>"
    by code_simp
  show ?thesis
    using default_fill_is_minimum[OF w e k c, of False False False False] w e k c v by simp
qed

section \<open>Counts\<close>

lemma diff_Cons2: "diff (a # b # l) = (int b - int a) # diff (b # l)"
  by (simp add: diff_def)

lemma diff_single: "diff [a] = []"
  by (simp add: diff_def)

lemma diff_map_Suc: "diff (map Suc l) = diff l"
proof (induction l rule: induct_list012)
  case 1
  then show ?case by (simp add: diff_def)
next
  case (2 x)
  then show ?case by (simp add: diff_def)
next
  case (3 x y zs)
  then show ?case by (simp add: diff_Cons2)
qed

lemma diff_zero_Cons: "t \<noteq> [] \<Longrightarrow> diff (0 # t) = int (hd t) # diff t"
  by (cases t) (auto simp: diff_Cons2)

lemma diff_zero_Suc: "t \<noteq> [] \<Longrightarrow> diff (0 # map Suc t) = (int (hd t) + 1) # diff t"
  using diff_zero_Cons[of "map Suc t"] by (simp add: diff_map_Suc hd_map)

lemma diff_snoc: "l \<noteq> [] \<Longrightarrow> diff (l @ [b]) = diff l @ [int b - int (last l)]"
proof (induction l rule: induct_list012)
  case 1
  then show ?case by simp
next
  case (2 x)
  then show ?case by (simp add: diff_def)
next
  case (3 x y zs)
  then show ?case by (simp add: diff_Cons2)
qed

lemma diff_pad_last: "l \<noteq> [] \<Longrightarrow> diff (l @ replicate k (last l)) = diff l @ replicate k 0"
proof (induction k)
  case 0
  then show ?case by simp
next
  case (Suc k)
  have lst: "last (l @ replicate k (last l)) = last l"
    by (cases k) auto
  have "diff (l @ replicate (Suc k) (last l)) = diff ((l @ replicate k (last l)) @ [last l])"
    by (simp add: replicate_append_same)
  also have "\<dots> = diff (l @ replicate k (last l))
                  @ [int (last l) - int (last (l @ replicate k (last l)))]"
    using Suc.prems by (intro diff_snoc) simp
  also have "\<dots> = (diff l @ replicate k 0) @ [0]"
    using Suc lst by simp
  also have "\<dots> = diff l @ replicate (Suc k) 0"
    by (simp add: replicate_append_same)
  finally show ?case .
qed

lemma sum_list_diff: "l \<noteq> [] \<Longrightarrow> sum_list (diff l) = int (last l) - int (hd l)"
proof (induction l rule: induct_list012)
  case 1
  then show ?case by simp
next
  case (2 x)
  then show ?case by (simp add: diff_def)
next
  case (3 x y zs)
  then show ?case by (simp add: diff_Cons2)
qed

lemma count_runs:
  "sorted (p # xs) \<Longrightarrow>
   diff (0 # map Suc (nonzero (changes p xs)) @ [Suc (length xs)])
     = map (\<lambda>v. int (count_list (p # xs) v)) (remdups_adj (p # xs))"
proof (induction xs arbitrary: p)
  case Nil
  then show ?case by (simp add: nonzero_Nil diff_def)
next
  case (Cons x xs)
  let ?N = "nonzero (changes x xs)"
  let ?T = "map Suc ?N @ [Suc (length xs)]"
  have srt: "sorted (x # xs)" and px: "p \<le> x" and pall: "\<forall>y \<in> set xs. p \<le> y"
    using Cons.prems by auto
  have IH: "diff (0 # ?T) = map (\<lambda>v. int (count_list (x # xs) v)) (remdups_adj (x # xs))"
    using Cons.IH[OF srt] by simp
  show ?case
  proof (cases "x = p")
    case True
    obtain R where R: "remdups_adj (p # xs) = p # R"
      by (metis remdups_adj_Cons_alt)
    have dR: "p \<notin> set R"
      using distinct_remdups_adj_sorted[OF srt] True R by simp
    have cnt: "map (\<lambda>v. int (count_list (p # p # xs) v)) R = map (\<lambda>v. int (count_list (p # xs) v)) R"
      using dR by (intro map_cong) auto
    have z: "diff (0 # ?T) = int (hd ?T) # diff ?T"
      by (rule diff_zero_Cons) simp
    have hdT: "int (hd ?T) = int (count_list (p # xs) p)"
      and tlT: "diff ?T = map (\<lambda>v. int (count_list (p # xs) v)) R"
      using IH True R z by auto
    have "diff (0 # map Suc (nonzero (changes p (x # xs))) @ [Suc (length (x # xs))])
        = diff (0 # map Suc ?T)"
      using True by (simp add: nonzero_Cons)
    also have "\<dots> = (int (hd ?T) + 1) # diff ?T"
      by (rule diff_zero_Suc) simp
    also have "\<dots> = map (\<lambda>v. int (count_list (p # p # xs) v)) (p # R)"
      using cnt hdT tlT by simp
    also have "p # R = remdups_adj (p # x # xs)"
      using True R by simp
    finally show ?thesis using True by simp
  next
    case False
    have pn: "p \<notin> set (x # xs)"
    proof
      assume "p \<in> set (x # xs)"
      then have "x \<le> p" using srt by auto
      with px False show False by simp
    qed
    have cnt: "map (\<lambda>v. int (count_list (p # x # xs) v)) (remdups_adj (x # xs))
             = map (\<lambda>v. int (count_list (x # xs) v)) (remdups_adj (x # xs))"
      using pn by (intro map_cong) auto
    have "diff (0 # map Suc (nonzero (changes p (x # xs))) @ [Suc (length (x # xs))])
        = diff (0 # map Suc (0 # ?T))"
      using False by (simp add: nonzero_Cons)
    also have "\<dots> = 1 # diff (0 # ?T)"
      using diff_zero_Suc[of "0 # ?T"] by simp
    also have "\<dots> = int (count_list (p # x # xs) p)
                  # map (\<lambda>v. int (count_list (p # x # xs) v)) (remdups_adj (x # xs))"
    proof -
      have "count_list (x # xs) p = 0" using pn by (simp only: count_list_0_iff not_False_eq_True)
      then have "int (count_list (p # x # xs) p) = 1" by simp
      then show ?thesis by (simp only: IH cnt)
    qed
    also have "\<dots> = map (\<lambda>v. int (count_list (p # x # xs) v)) (remdups_adj (p # x # xs))"
      using False by simp
    finally show ?thesis .
  qed
qed

lemma count_list_sort: "count_list (sort xs) v = count_list xs v"
  by (metis count_mset mset_sort)

lemma sized_boundaries:
  assumes "mask_sum (True # c) \<le> n"
  shows "take 1 (nonzero_size (True # c) (n + 1))
           @ map (\<lambda>i. if i \<noteq> 0 then i else l) (drop 1 (nonzero_size (True # c) (n + 1)))
       = (0 # map Suc (nonzero c) @ [l]) @ replicate (n - mask_sum (True # c)) l"
proof -
  let ?u = "mask_sum (True # c)"
  have "nonzero_size (True # c) (n + 1) = nonzero (True # c) @ replicate (n + 1 - ?u) 0"
    using assms by (intro nonzero_size_pad) simp
  also have "\<dots> = 0 # map Suc (nonzero c) @ replicate (n + 1 - ?u) 0"
    by (simp add: nonzero_Cons)
  finally have idx: "nonzero_size (True # c) (n + 1)
      = 0 # map Suc (nonzero c) @ replicate (n + 1 - ?u) 0" .
  have "n + 1 - ?u = Suc (n - ?u)" using assms by simp
  then have "replicate (n + 1 - ?u) l = [l] @ replicate (n - ?u) l"
    by simp
  then show ?thesis
    unfolding idx by (simp add: comp_def)
qed

lemma counts_unfold:
  assumes wf: "wf_array ar" and k: "out_prod ar \<noteq> 0" and ne: "elems ar \<noteq> []"
    and r: "unique_inner ar ri rv True sz fv rt = Inr r"
  shows "ret_counts r = Some
     (case sz of
        None \<Rightarrow> diff (nonzero (True # changes (hd (sort (elems ar))) (tl (sort (elems ar))))
                      @ [length (True # changes (hd (sort (elems ar))) (tl (sort (elems ar))))])
      | Some n \<Rightarrow>
          diff (take 1 (nonzero_size (True # changes (hd (sort (elems ar))) (tl (sort (elems ar)))) (n + 1))
                @ map (\<lambda>i. if i \<noteq> 0 then i
                            else length (True # changes (hd (sort (elems ar))) (tl (sort (elems ar)))))
                    (drop 1 (nonzero_size (True # changes (hd (sort (elems ar))) (tl (sort (elems ar)))) (n + 1)))))"
  using r k ne sort_not_Nil[OF ne]
  by (auto simp: unique_inner_def usm_elems[OF wf k ne] Let_def simp del: getitem.simps
      split: option.splits)

lemma run_counts_sorted:
  assumes ne: "xs \<noteq> []"
  shows "diff (0 # map Suc (nonzero (changes (hd (sort xs)) (tl (sort xs)))) @ [length xs])
       = map (\<lambda>v. int (count_list xs v)) (remdups_adj (sort xs))"
proof -
  let ?s = "sort xs"
  have s: "?s = hd ?s # tl ?s" using sort_not_Nil[OF ne] by simp
  have srt: "sorted (hd ?s # tl ?s)" using s by (metis sorted_sort)
  have len: "Suc (length (tl ?s)) = length xs"
    using s by (metis length_Cons length_sort)
  have "diff (0 # map Suc (nonzero (changes (hd ?s) (tl ?s))) @ [Suc (length (tl ?s))])
      = map (\<lambda>v. int (count_list (hd ?s # tl ?s) v)) (remdups_adj (hd ?s # tl ?s))"
    by (rule count_runs[OF srt])
  then show ?thesis
    unfolding len using s by (simp add: count_list_sort del: remdups_adj.simps)
qed

lemma counts_no_truncation:
  assumes wf: "wf_array ar" and k: "out_prod ar \<noteq> 0" and ne: "elems ar \<noteq> []"
    and nt: "no_truncation ar sz"
    and r: "unique_inner ar ri rv True sz fv rt = Inr r"
  shows "ret_counts r = Some
     (map (\<lambda>v. int (count_list (elems ar) v)) (remdups_adj (sort (elems ar)))
      @ replicate (case sz of None \<Rightarrow> 0 | Some n \<Rightarrow> n - card (set (elems ar))) 0)"
proof -
  let ?s = "sort (elems ar)"
  let ?c = "changes (hd ?s) (tl ?s)"
  let ?l = "length (True # ?c)"
  let ?b = "0 # map Suc (nonzero ?c) @ [?l]"
  have l: "?l = length (elems ar)" by (rule length_sorted_mask[OF ne])
  have u: "mask_sum (True # ?c) = card (set (elems ar))" by (rule mask_sum_sorted[OF ne])
  have b: "diff ?b = map (\<lambda>v. int (count_list (elems ar) v)) (remdups_adj ?s)"
    using run_counts_sorted[OF ne] l by simp
  show ?thesis
  proof (cases sz)
    case None
    have "nonzero (True # ?c) @ [?l] = ?b" by (simp add: nonzero_Cons)
    then show ?thesis
      using counts_unfold[OF wf k ne r] None b by simp
  next
    case (Some n)
    have le: "mask_sum (True # ?c) \<le> n"
      using nt Some u by (simp add: no_truncation_def)
    have "diff (?b @ replicate (n - mask_sum (True # ?c)) (last ?b))
        = diff ?b @ replicate (n - mask_sum (True # ?c)) 0"
      by (rule diff_pad_last) simp
    moreover have "last ?b = ?l" by simp
    ultimately have "diff (?b @ replicate (n - mask_sum (True # ?c)) ?l)
        = diff ?b @ replicate (n - mask_sum (True # ?c)) 0"
      by (simp only:)
    then show ?thesis
      using counts_unfold[OF wf k ne r] Some sized_boundaries[OF le, of ?l] b u
      by (simp only: option.case)
  qed
qed

lemma where_rows_same_length:
  "length res = length valid \<Longrightarrow>
   where_rows valid res v = map (\<lambda>(b, r). if b then r else map (\<lambda>_. v) r) (zip valid res)"
proof -
  assume l: "length res = length valid"
  have "replicate (length valid) (hd res) = res" if "length res = 1"
  proof -
    from that obtain a where "res = [a]" by (cases res) auto
    moreover have "length valid = Suc 0" using l that by simp
    ultimately show ?thesis by simp
  qed
  then show ?thesis by (simp add: where_rows_def)
qed

lemma where_rows_prefix:
  assumes "length a = u" "u \<le> n"
  shows "where_rows (map (\<lambda>i. i < u) (arange n)) (a @ replicate (n - u) z) v
       = a @ replicate (n - u) (map (\<lambda>_. v) z)"
proof -
  have "where_rows (map (\<lambda>i. i < u) (arange n)) (a @ replicate (n - u) z) v
      = map (\<lambda>(b, r). if b then r else map (\<lambda>_. v) r)
          (zip (map (\<lambda>i. i < u) (arange n)) (a @ replicate (n - u) z))"
    using assms by (intro where_rows_same_length) (simp add: arange_def)
  also have "\<dots> = a @ replicate (n - u) (map (\<lambda>_. v) z)"
    using assms by (intro nth_equalityI) (auto simp: arange_def nth_append)
  finally show ?thesis .
qed

lemma uvalues_sized_fill:
  assumes wf: "wf_array ar" and k: "out_prod ar \<noteq> 0" and ne: "elems ar \<noteq> []"
    and r: "unique_inner ar ri rv rc (Some n) (Some v) rt = Inr r" and n: "n \<noteq> 0"
  shows "uvalues r = where_rows
           (map (\<lambda>i. i < mask_sum (True # changes (hd (sort (elems ar))) (tl (sort (elems ar)))))
                (arange n))
           (getitem (sort (elems ar))
              (Positions (nonzero_size (True # changes (hd (sort (elems ar))) (tl (sort (elems ar)))) n)))
           v"
proof -
  let ?g = "getitem (sort (elems ar))
              (Positions (nonzero_size (True # changes (hd (sort (elems ar))) (tl (sort (elems ar)))) n))"
  have "length ?g = n" by (simp add: length_nonzero_size)
  then have "?g \<noteq> []" using n by auto
  then show ?thesis
    using r k ne sort_not_Nil[OF ne]
    by (auto simp: unique_inner_def usm_elems[OF wf k ne] Let_def simp del: getitem.simps)
qed

lemma uvalues_prefix:
  assumes wf: "wf_array ar" and k: "out_prod ar \<noteq> 0" and ne: "elems ar \<noteq> []"
    and nt: "no_truncation ar sz"
    and r: "unique_inner ar ri rv rc sz fv rt = Inr r"
  shows "\<exists>pad. uvalues r = remdups_adj (sort (elems ar)) @ pad"
proof (cases sz)
  case None
  then show ?thesis using uvalues_no_size[OF wf k] r by auto
next
  case (Some n)
  let ?s = "sort (elems ar)"
  let ?m = "True # changes (hd ?s) (tl ?s)"
  let ?c = "card (set (elems ar))"
  have le: "?c \<le> n" using nt Some by (simp add: no_truncation_def)
  have g: "getitem ?s (Positions (nonzero_size ?m n))
         = remdups_adj ?s @ replicate (n - ?c) (Min (set (elems ar)))"
    by (rule gather_sized_no_truncation[OF ne le])
  show ?thesis
  proof (cases fv)
    case None
    then show ?thesis
      using uvalues_sized_no_fill[OF wf k ne] r Some g by auto
  next
    case (Some v)
    have "0 < ?c" using ne by (simp add: card_gt_0_iff)
    then have n0: "n \<noteq> 0" using le by simp
    have lr: "length (remdups_adj ?s) = ?c"
      using sorted_remdups_adj_card[of ?s] by simp
    have "uvalues r = where_rows (map (\<lambda>i. i < ?c) (arange n))
             (remdups_adj ?s @ replicate (n - ?c) (Min (set (elems ar)))) v"
      using uvalues_sized_fill[OF wf k ne _ n0] r \<open>sz = Some n\<close> Some g mask_sum_sorted[OF ne]
      by simp
    then show ?thesis
      using where_rows_prefix[OF lr le] by simp
  qed
qed

lemma sum_run_counts:
  assumes "xs \<noteq> []"
  shows "sum_list (map (\<lambda>v. int (count_list xs v)) (remdups_adj (sort xs))) = int (length xs)"
proof -
  let ?b = "0 # map Suc (nonzero (changes (hd (sort xs)) (tl (sort xs)))) @ [length xs]"
  have "sum_list (diff ?b) = int (last ?b) - int (hd ?b)"
    by (rule sum_list_diff) simp
  then show ?thesis
    using run_counts_sorted[OF assms] by simp
qed

lemma counts_no_elems:
  assumes "out_prod ar \<noteq> 0" "elems ar = []" "unique_inner ar ri rv True sz fv rt = Inr r"
  shows "ret_counts r = Some []"
  using assms by (auto simp: unique_inner_def usm_no_elems split: if_splits)

lemma counts_zero_width:
  assumes "out_prod ar = 0" "unique_inner ar ri rv True sz fv rt = Inr r"
  shows "ret_counts r = Some (if elems ar \<noteq> [] then [int (length (elems ar))] else [])"
  using assms by (auto simp: unique_inner_def usm_zero_width split: if_splits)

text \<open>
  C2: when \<^verbatim>\<open>unique\<close> returns counts and no truncation applies (no size, or a size of
  at least the number of distinct elements), the counts sum to the number of elements
  along the working axis, and the count in each slot of a distinct element is the
  number of elements of the input equal to the unique value in that slot.
\<close>

theorem counts_sum_and_multiplicity:
  assumes wf: "wf_array ar" and nt: "no_truncation ar sz"
    and r: "unique_inner ar ri rv True sz fv rt = Inr r"
  shows "\<exists>cs. ret_counts r = Some cs
            \<and> sum_list cs = int (length (elems ar))
            \<and> (\<forall>i < card (set (elems ar)).
                  i < length cs \<and> i < length (uvalues r)
                  \<and> cs ! i = int (count_list (elems ar) (uvalues r ! i)))"
proof (cases "out_prod ar = 0")
  case True
  let ?n = "length (elems ar)"
  have el: "elems ar = replicate ?n []" by (rule zero_width_elems[OF wf True])
  have cs: "ret_counts r = Some (if elems ar \<noteq> [] then [int ?n] else [])"
    by (rule counts_zero_width[OF True r])
  have uv: "uvalues r = (case (sz, fv) of (Some n, Some v) \<Rightarrow> replicate n [] | _ \<Rightarrow> [[]])"
    by (rule uvalues_zero_width[OF True r])
  show ?thesis
  proof (cases "elems ar = []")
    case True
    then show ?thesis using cs by simp
  next
    case False
    then have n0: "?n \<noteq> 0" by simp
    have "set (elems ar) = {[]}"
      using n0 by (subst el) auto
    then have c1: "card (set (elems ar)) = 1" by simp
    have u0: "0 < length (uvalues r) \<and> uvalues r ! 0 = []"
      using uv nt c1 by (auto simp: no_truncation_def split: option.splits)
    have "count_list (replicate m ([] :: 'a elem list)) [] = m" for m
      by (induction m) auto
    then have "count_list (elems ar) [] = ?n"
      by (subst el) simp
    then show ?thesis
      using cs False c1 u0 by simp
  qed
next
  case k: False
  show ?thesis
  proof (cases "elems ar = []")
    case True
    then show ?thesis using counts_no_elems[OF k True r] by simp
  next
    case ne: False
    let ?s = "sort (elems ar)"
    let ?c = "card (set (elems ar))"
    let ?cnt = "map (\<lambda>v. int (count_list (elems ar) v)) (remdups_adj ?s)"
    let ?pad = "replicate (case sz of None \<Rightarrow> 0 | Some n \<Rightarrow> n - ?c) (0::int)"
    have cs: "ret_counts r = Some (?cnt @ ?pad)"
      by (rule counts_no_truncation[OF wf k ne nt r])
    obtain pad where uv: "uvalues r = remdups_adj ?s @ pad"
      using uvalues_prefix[OF wf k ne nt r] by blast
    have lr: "length (remdups_adj ?s) = ?c"
      using sorted_remdups_adj_card[of ?s] by simp
    have sum: "sum_list (?cnt @ ?pad) = int (length (elems ar))"
      using sum_run_counts[OF ne] by (simp add: sum_list_replicate)
    have slots: "\<forall>i < ?c. i < length (?cnt @ ?pad) \<and> i < length (uvalues r)
                   \<and> (?cnt @ ?pad) ! i = int (count_list (elems ar) (uvalues r ! i))"
      using lr uv by (auto simp: nth_append)
    show ?thesis using cs sum slots by blast
  qed
qed

theorem counts_sum_and_multiplicity_witness:
  "wf_array (of_flat Integral [Val 3, Val 1, Val 2, Val 1, Val (3::int)])
   \<and> no_truncation (of_flat Integral [Val 3, Val 1, Val 2, Val 1, Val (3::int)]) None
   \<and> unique_inner (of_flat Integral [Val 3, Val 1, Val 2, Val 1, Val (3::int)])
        False False True None None False
      = Inr \<lparr>uvalues = [[Val 1], [Val 2], [Val 3]], ret_index = None, ret_inverse = None,
             ret_counts = Some [2, 1, 2], ret_true_size = None\<rparr>
   \<and> sum_list [2, 1, 2] = int (length (elems (of_flat Integral [Val 3, Val 1, Val 2, Val 1, Val (3::int)])))"
proof -
  let ?ar = "of_flat Integral [Val 3, Val 1, Val 2, Val 1, Val (3::int)]"
  have w: "wf_array ?ar" by code_simp
  have n: "no_truncation ?ar None" by (simp add: no_truncation_def)
  have v: "unique_inner ?ar False False True None None False
      = Inr \<lparr>uvalues = [[Val 1], [Val 2], [Val 3]], ret_index = None, ret_inverse = None,
             ret_counts = Some [2, 1, 2], ret_true_size = None\<rparr>"
    by code_simp
  show ?thesis
    using counts_sum_and_multiplicity[OF w n v] w n v by simp
qed

section \<open>The inverse index\<close>

lemma length_at_set: "length (at_set base ps vs) = length base"
proof -
  have "length (fold (\<lambda>(p, v) acc. acc[p := v]) z base) = length base" for z
    by (induction z arbitrary: base) auto
  then show ?thesis by (simp add: at_set_def)
qed

lemma at_set_untouched: "q \<notin> set ps \<Longrightarrow> at_set base ps vs ! q = base ! q"
proof (induction ps arbitrary: vs base)
  case Nil
  then show ?case by (simp add: at_set_def)
next
  case (Cons p ps)
  show ?case
  proof (cases vs)
    case Nil
    then show ?thesis by (simp add: at_set_def)
  next
    case (Cons v vs')
    have "at_set base (p # ps) vs = at_set (base[p := v]) ps vs'"
      using Cons by (simp add: at_set_def)
    then show ?thesis using Cons.IH[of "base[p := v]" vs'] Cons.prems by simp
  qed
qed

lemma at_set_nth:
  "distinct ps \<Longrightarrow> length vs = length ps \<Longrightarrow> \<forall>p \<in> set ps. p < length base \<Longrightarrow>
   j < length ps \<Longrightarrow> at_set base ps vs ! (ps ! j) = vs ! j"
proof (induction ps arbitrary: vs base j)
  case Nil
  then show ?case by simp
next
  case (Cons p ps)
  then obtain v vs' where vs: "vs = v # vs'" by (cases vs) auto
  have step: "at_set base (p # ps) vs = at_set (base[p := v]) ps vs'"
    using vs by (simp add: at_set_def)
  show ?case
  proof (cases j)
    case 0
    have "p \<notin> set ps" using Cons.prems(1) by simp
    then have "at_set (base[p := v]) ps vs' ! p = base[p := v] ! p"
      by (rule at_set_untouched)
    then show ?thesis using step 0 vs Cons.prems(3) by simp
  next
    case (Suc j')
    have "at_set (base[p := v]) ps vs' ! (ps ! j') = vs' ! j'"
      using Cons.prems vs Suc by (intro Cons.IH) auto
    then show ?thesis using step Suc vs by simp
  qed
qed

lemma length_cumsum_from: "length (cumsum_from acc m) = length m"
  by (induction m arbitrary: acc) auto

lemma cumsum_from_nth:
  "j < length m \<Longrightarrow> cumsum_from acc m ! j = acc + int (mask_sum (take (Suc j) m))"
proof (induction m arbitrary: acc j)
  case Nil
  then show ?case by simp
next
  case (Cons b m)
  show ?case
  proof (cases j)
    case 0
    then show ?thesis by (simp add: mask_sum_def)
  next
    case (Suc j')
    then have "j' < length m" using Cons.prems by simp
    from Cons.IH[OF this, of "acc + (if b then 1 else 0)"] Suc
    show ?thesis by (simp add: mask_sum_def)
  qed
qed

lemma cumsum_nth: "j < length m \<Longrightarrow> cumsum m ! j = int (mask_sum (take (Suc j) m))"
  by (simp add: cumsum_def cumsum_from_nth)

lemma take_changes: "take j (changes p xs) = changes p (take j xs)"
proof (induction xs arbitrary: p j)
  case Nil
  then show ?case by simp
next
  case (Cons x xs)
  then show ?case by (cases j) auto
qed

lemma rank_prefix:
  assumes "xs \<noteq> []" "j < length xs"
  shows "mask_sum (take (Suc j) (True # changes (hd xs) (tl xs)))
       = length (remdups_adj (take (Suc j) xs))"
proof -
  have xs: "xs = hd xs # tl xs" using assms(1) by simp
  have "take (Suc j) (True # changes (hd xs) (tl xs)) = True # changes (hd xs) (take j (tl xs))"
    by (simp add: take_changes)
  moreover have "take (Suc j) xs = hd xs # take j (tl xs)"
    by (subst xs) simp
  ultimately show ?thesis
    using mask_sum_changes[of "hd xs" "take j (tl xs)"] by (simp only:)
qed

lemma remdups_adj_rank_nth:
  assumes "j < length xs"
  shows "length (remdups_adj (take (Suc j) xs)) - 1 < length (remdups_adj xs)
       \<and> remdups_adj xs ! (length (remdups_adj (take (Suc j) xs)) - 1) = xs ! j"
proof -
  let ?a = "remdups_adj (take j xs @ [xs ! j])"
  have t: "take (Suc j) xs = take j xs @ [xs ! j]"
    using assms by (rule take_Suc_conv_app_nth)
  have "xs = take j xs @ xs ! j # drop (Suc j) xs"
    using assms by (rule id_take_nth_drop)
  then have "remdups_adj xs = remdups_adj (take j xs @ xs ! j # drop (Suc j) xs)"
    by simp
  also have "\<dots> = ?a @ tl (remdups_adj (xs ! j # drop (Suc j) xs))"
    by (rule remdups_adj_append)
  finally have split: "remdups_adj xs = ?a @ tl (remdups_adj (xs ! j # drop (Suc j) xs))" .
  have ne: "?a \<noteq> []" by simp
  have a1: "?a ! (length ?a - 1) = xs ! j"
    by (metis ne last_conv_nth last_remdups_adj last_snoc)
  have a2: "length ?a - 1 < length ?a" using ne by simp
  have "remdups_adj xs ! (length ?a - 1) = ?a ! (length ?a - 1)"
    using a2 by (subst split) (simp add: nth_append)
  moreover have "length ?a \<le> length (remdups_adj xs)"
    by (subst split) (simp only: length_append le_add1)
  then have "length ?a - 1 < length (remdups_adj xs)"
    using a2 by linarith
  ultimately show ?thesis
    unfolding t using a1 by simp
qed

lemma inverse_unfold:
  assumes wf: "wf_array ar" and k: "out_prod ar \<noteq> 0" and ne: "elems ar \<noteq> []"
    and r: "unique_inner ar ri True rc sz fv rt = Inr r"
  shows "ret_inverse r = Some
     (at_set (replicate (length (True # changes (hd (sort (elems ar))) (tl (sort (elems ar))))) 0)
        (lexsort (elems ar))
        (map (\<lambda>c. c - 1) (cumsum (True # changes (hd (sort (elems ar))) (tl (sort (elems ar)))))))"
  using r k ne sort_not_Nil[OF ne]
  by (auto simp: unique_inner_def usm_elems[OF wf k ne] Let_def simp del: getitem.simps
      split: option.splits)

lemma inverse_no_elems:
  assumes "out_prod ar \<noteq> 0" "elems ar = []" "unique_inner ar ri True rc sz fv rt = Inr r"
  shows "ret_inverse r = Some []"
  using assms by (auto simp: unique_inner_def usm_no_elems split: if_splits)

lemma inverse_zero_width:
  assumes "out_prod ar = 0" "unique_inner ar ri True rc sz fv rt = Inr r"
  shows "ret_inverse r = Some (replicate (length (elems ar)) 0)"
  using assms by (auto simp: unique_inner_def usm_zero_width split: if_splits)

lemma sorted_nth_lexsort:
  assumes "j < length rs"
  shows "lexsort rs ! j < length rs" and "sort rs ! j = rs ! (lexsort rs ! j)"
proof -
  have "lexsort rs ! j \<in> set (lexsort rs)"
    using assms by (simp add: length_lexsort)
  then show b: "lexsort rs ! j < length rs"
    by (simp add: set_lexsort)
  have "sort rs ! j = getitem rs (Positions (lexsort rs)) ! j"
    by (simp only: gather_lexsort)
  also have "\<dots> = rs ! min (lexsort rs ! j) (length rs - 1)"
    using assms by (simp add: length_lexsort)
  also have "min (lexsort rs ! j) (length rs - 1) = lexsort rs ! j"
    using b by linarith
  finally show "sort rs ! j = rs ! (lexsort rs ! j)" .
qed

lemma lexsort_onto:
  assumes "p < length rs"
  shows "\<exists>j < length rs. lexsort rs ! j = p"
proof -
  have "p \<in> set (lexsort rs)" using assms by (simp add: set_lexsort)
  then show ?thesis by (auto simp: in_set_conv_nth length_lexsort)
qed

lemma inverse_rank:
  assumes wf: "wf_array ar" and k: "out_prod ar \<noteq> 0" and ne: "elems ar \<noteq> []"
    and r: "unique_inner ar ri True rc sz fv rt = Inr r"
    and ivx: "ret_inverse r = Some ivx" and j: "j < length (elems ar)"
  shows "ivx ! (lexsort (elems ar) ! j)
       = int (mask_sum (take (Suc j) (True # changes (hd (sort (elems ar))) (tl (sort (elems ar)))))) - 1"
    and "length ivx = length (elems ar)"
proof -
  let ?m = "True # changes (hd (sort (elems ar))) (tl (sort (elems ar)))"
  let ?p = "lexsort (elems ar)"
  let ?v = "map (\<lambda>c. c - 1) (cumsum ?m)"
  have lm: "length ?m = length (elems ar)" by (rule length_sorted_mask[OF ne])
  have i: "ivx = at_set (replicate (length ?m) 0) ?p ?v"
    using inverse_unfold[OF wf k ne r] ivx by simp
  show "length ivx = length (elems ar)"
    unfolding i length_at_set using lm by simp
  have lv: "length ?v = length ?p"
    using lm by (simp add: cumsum_def length_cumsum_from length_lexsort)
  have bnd: "\<forall>p \<in> set ?p. p < length (replicate (length ?m) (0::int))"
    using lm by (simp add: set_lexsort)
  have jp: "j < length ?p" using j by (simp add: length_lexsort)
  have "ivx ! (?p ! j) = ?v ! j"
    unfolding i by (rule at_set_nth[OF distinct_lexsort lv bnd jp])
  also have "\<dots> = cumsum ?m ! j - 1"
  proof -
    have "j < length (cumsum ?m)"
      using j lm by (simp only: cumsum_def length_cumsum_from)
    then show ?thesis
      using nth_map[of j "cumsum ?m" "\<lambda>c. c - 1"] by (simp only:)
  qed
  also have "cumsum ?m ! j = int (mask_sum (take (Suc j) ?m))"
    using j lm by (intro cumsum_nth) simp
  finally show "ivx ! (?p ! j) = int (mask_sum (take (Suc j) ?m)) - 1" .
qed

text \<open>
  C3: when \<^verbatim>\<open>unique\<close> returns the inverse index and no truncation applies, the inverse
  index has one entry per element and indexing the unique values by it gives back the
  input, element by element (equality under the NaN-equal rule). For an array whose
  elements hold scalars (as every flattened array does), the entry at the original
  position \<open>perm ! j\<close> of the element sorted to position \<open>j\<close> is the number of true mask
  entries up to and including \<open>j\<close>, minus one.
\<close>

theorem inverse_round_trip:
  assumes wf: "wf_array ar" and nt: "no_truncation ar sz"
    and r: "unique_inner ar ri True rc sz fv rt = Inr r"
  shows "\<exists>ivx aux msk perm.
           ret_inverse r = Some ivx
         \<and> unique_sorted_mask ar = (aux, msk, perm)
         \<and> length ivx = length (elems ar)
         \<and> (\<forall>p < length (elems ar).
               0 \<le> ivx ! p \<and> nat (ivx ! p) < length (uvalues r)
               \<and> same_row (uvalues r ! nat (ivx ! p)) (elems ar ! p))
         \<and> (out_prod ar \<noteq> 0 \<longrightarrow>
               (\<forall>j < length (elems ar).
                  perm ! j < length (elems ar)
                  \<and> same_row (aux ! j) (elems ar ! (perm ! j))
                  \<and> ivx ! (perm ! j) = int (mask_sum (take (Suc j) msk)) - 1))"
proof (cases "out_prod ar = 0")
  case True
  let ?n = "length (elems ar)"
  have el: "elems ar = replicate ?n []" by (rule zero_width_elems[OF wf True])
  have iv: "ret_inverse r = Some (replicate ?n 0)"
    by (rule inverse_zero_width[OF True r])
  have uv: "uvalues r = (case (sz, fv) of (Some n, Some v) \<Rightarrow> replicate n [] | _ \<Rightarrow> [[]])"
    by (rule uvalues_zero_width[OF True r])
  have rows: "\<forall>p < ?n. elems ar ! p = []"
    by (subst el) simp
  have u0: "0 < length (uvalues r) \<and> uvalues r ! 0 = []" if "0 < ?n"
  proof -
    have "set (elems ar) = {[]}" using that by (subst el) auto
    then have "card (set (elems ar)) = 1" by simp
    then show ?thesis
      using uv nt by (auto simp: no_truncation_def split: option.splits)
  qed
  have "0 \<le> replicate ?n (0::int) ! p
                \<and> nat (replicate ?n (0::int) ! p) < length (uvalues r)
                \<and> same_row (uvalues r ! nat (replicate ?n (0::int) ! p)) (elems ar ! p)"
    if p: "p < ?n" for p
  proof -
    have "0 < ?n" using p by linarith
    then show ?thesis using u0 rows p by (simp add: same_row_iff)
  qed
  then have "\<forall>p < ?n. 0 \<le> replicate ?n (0::int) ! p
                \<and> nat (replicate ?n (0::int) ! p) < length (uvalues r)
                \<and> same_row (uvalues r ! nat (replicate ?n (0::int) ! p)) (elems ar ! p)"
    by blast
  then show ?thesis
    using iv True usm_zero_width[OF True] by simp
next
  case k: False
  show ?thesis
  proof (cases "elems ar = []")
    case True
    then show ?thesis
      using inverse_no_elems[OF k True r] usm_no_elems[OF k True] by simp
  next
    case ne: False
    let ?s = "sort (elems ar)"
    let ?m = "True # changes (hd ?s) (tl ?s)"
    let ?p = "lexsort (elems ar)"
    let ?n = "length (elems ar)"
    have sne: "?s \<noteq> []" by (rule sort_not_Nil[OF ne])
    have usm: "unique_sorted_mask ar = (?s, ?m, ?p)" by (rule usm_elems[OF wf k ne])
    obtain ivx where iv: "ret_inverse r = Some ivx"
      using inverse_unfold[OF wf k ne r] by blast
    have len: "length ivx = ?n" by (rule inverse_rank(2)[OF wf k ne r iv, of 0]) (use ne in simp)
    obtain pad where uv: "uvalues r = remdups_adj ?s @ pad"
      using uvalues_prefix[OF wf k ne nt r] by blast
    have rank: "?p ! j < ?n \<and> ?s ! j = elems ar ! (?p ! j)
                \<and> ivx ! (?p ! j) = int (mask_sum (take (Suc j) ?m)) - 1
                \<and> 0 \<le> ivx ! (?p ! j)
                \<and> nat (ivx ! (?p ! j)) < length (uvalues r)
                \<and> uvalues r ! nat (ivx ! (?p ! j)) = elems ar ! (?p ! j)"
      if j: "j < ?n" for j
    proof -
      have js: "j < length ?s" using j by simp
      have a: "?p ! j < ?n" and b: "?s ! j = elems ar ! (?p ! j)"
        using sorted_nth_lexsort[OF j] by auto
      have c: "ivx ! (?p ! j) = int (mask_sum (take (Suc j) ?m)) - 1"
        by (rule inverse_rank(1)[OF wf k ne r iv j])
      let ?q = "length (remdups_adj (take (Suc j) ?s))"
      have q: "mask_sum (take (Suc j) ?m) = ?q"
        by (rule rank_prefix[OF sne js])
      have q1: "1 \<le> ?q"
        using js sne by (simp add: Suc_le_eq take_Suc_conv_app_nth)
      have d: "?q - 1 < length (remdups_adj ?s) \<and> remdups_adj ?s ! (?q - 1) = ?s ! j"
        by (rule remdups_adj_rank_nth[OF js])
      have c': "ivx ! (?p ! j) = int ?q - 1"
        using c by (simp only: q)
      have e: "nat (ivx ! (?p ! j)) = ?q - 1"
        using c' q1 by linarith
      have f: "0 \<le> ivx ! (?p ! j)" using c' q1 by linarith
      have g: "nat (ivx ! (?p ! j)) < length (uvalues r)"
        using d unfolding e uv by simp
      have h: "uvalues r ! nat (ivx ! (?p ! j)) = elems ar ! (?p ! j)"
        using d b unfolding e uv by (simp add: nth_append)
      from a b c f g h show ?thesis by blast
    qed
    have round: "\<forall>p < ?n. 0 \<le> ivx ! p \<and> nat (ivx ! p) < length (uvalues r)
                   \<and> same_row (uvalues r ! nat (ivx ! p)) (elems ar ! p)"
    proof (intro allI impI)
      fix p assume "p < ?n"
      then obtain j where "j < ?n" "?p ! j = p"
        using lexsort_onto by blast
      then show "0 \<le> ivx ! p \<and> nat (ivx ! p) < length (uvalues r)
                   \<and> same_row (uvalues r ! nat (ivx ! p)) (elems ar ! p)"
        using rank[of j] by (auto simp: same_row_iff)
    qed
    have ranks: "\<forall>j < ?n. ?p ! j < ?n \<and> same_row (?s ! j) (elems ar ! (?p ! j))
                   \<and> ivx ! (?p ! j) = int (mask_sum (take (Suc j) ?m)) - 1"
      using rank by (simp add: same_row_iff)
    show ?thesis
      using iv usm len round ranks by blast
  qed
qed

theorem inverse_round_trip_witness:
  "wf_array (of_flat Floating [NaN, Val 3, Val 1, NaN, Val (3::int)])
   \<and> no_truncation (of_flat Floating [NaN, Val 3, Val 1, NaN, Val (3::int)]) None
   \<and> unique_inner (of_flat Floating [NaN, Val 3, Val 1, NaN, Val (3::int)])
        False True False None None False
      = Inr \<lparr>uvalues = [[Val 1], [Val 3], [NaN]], ret_index = None,
             ret_inverse = Some [2, 1, 0, 2, 1], ret_counts = None, ret_true_size = None\<rparr>
   \<and> unique_sorted_mask (of_flat Floating [NaN, Val 3, Val 1, NaN, Val (3::int)])
      = ([[Val 1], [Val 3], [Val 3], [NaN], [NaN]], [True, True, False, True, False],
         [2, 1, 4, 0, 3])"
proof -
  let ?ar = "of_flat Floating [NaN, Val 3, Val 1, NaN, Val (3::int)]"
  have w: "wf_array ?ar" by code_simp
  have n: "no_truncation ?ar None" by (simp add: no_truncation_def)
  have v: "unique_inner ?ar False True False None None False
      = Inr \<lparr>uvalues = [[Val 1], [Val 3], [NaN]], ret_index = None,
             ret_inverse = Some [2, 1, 0, 2, 1], ret_counts = None, ret_true_size = None\<rparr>"
    by code_simp
  have m: "unique_sorted_mask ?ar
      = ([[Val 1], [Val 3], [Val 3], [NaN], [NaN]], [True, True, False, True, False],
         [2, 1, 4, 0, 3])"
    by code_simp
  show ?thesis
    using inverse_round_trip[OF w n v] w n v m by simp
qed

section \<open>Set difference under a fixed size\<close>

lemma card_single_rows: "card (set (map (\<lambda>x. [x]) xs)) = card (set xs)"
  by (simp add: card_image inj_on_def)

lemma unique_values_sized_no_fill:
  assumes wf: "wf_flat dt a" and ne: "a \<noteq> []" and le: "card (set a) \<le> n"
    and r: "unique dt a ri rv rc (Some n) None = Inr r"
  shows "uvalues r = remdups_adj (sort a) @ replicate (n - card (set a)) (hd (sort a))"
proof -
  let ?rows = "map (\<lambda>x. [x]) a"
  from r obtain r' where r': "unique_inner (of_flat dt a) ri rv rc (Some n) None False = Inr r'"
    and u: "uvalues r = flatten (uvalues r')"
    by (auto simp: unique_Inr)
  have k: "out_prod (of_flat dt a) \<noteq> 0" by (simp add: of_flat_def)
  have wa: "wf_array (of_flat dt a)" using wf by (simp add: wf_array_of_flat)
  have el: "elems (of_flat dt a) = ?rows" by (simp add: of_flat_def)
  have rne: "?rows \<noteq> []" using ne by simp
  have le': "card (set ?rows) \<le> n" using le by (simp only: card_single_rows)
  have "Min (set ?rows) = hd (sort ?rows)" by (rule hd_sort_Min[OF rne, symmetric])
  also have "\<dots> = [hd (sort a)]"
    using sort_not_Nil[OF ne] by (simp add: sort_single hd_map)
  finally have mn: "Min (set ?rows) = [hd (sort a)]" .
  have "uvalues r' = remdups_adj (sort ?rows) @ replicate (n - card (set ?rows)) (Min (set ?rows))"
    using uvalues_sized_no_fill[OF wa k _ r'] gather_sized_no_truncation[OF rne le'] rne el
    by simp
  also have "\<dots> = map (\<lambda>x. [x]) (remdups_adj (sort a) @ replicate (n - card (set a)) (hd (sort a)))"
    by (simp only: mn card_single_rows sort_single remdups_adj_single map_append map_replicate)
  finally show ?thesis
    using u by (simp only: flatten_single)
qed

lemma nonzero_false_tail: "nonzero (bs @ replicate k False) = nonzero bs"
proof (induction bs)
  case Nil
  show ?case by (induction k) (auto simp: nonzero_Cons nonzero_Nil)
next
  case (Cons b bs)
  then show ?case by (simp add: nonzero_Cons)
qed

lemma mask_sum_false_tail: "mask_sum (bs @ replicate k False) = mask_sum bs"
  by (simp add: mask_sum_def)

lemma cut_mask:
  assumes "length us = u"
  shows "map (\<lambda>(i, m). if int i < int u then m else False)
           (zip (arange (u + k)) (map P (us @ replicate k z)))
       = map P us @ replicate k False"
  using assms by (intro nth_equalityI) (auto simp: arange_def nth_append)

lemma gather_prefix:
  assumes "\<forall>i \<in> set ps. i < length us"
  shows "getitem (us @ xs) (Positions ps) = getitem us (Positions ps)"
proof -
  have "(us @ xs) ! min i (length (us @ xs) - 1) = us ! min i (length us - 1)"
    if "i \<in> set ps" for i
    using that assms by (auto simp: min_def nth_append)
  then show ?thesis by simp
qed

lemma gather_bool_map: "getitem us (BoolMask (map P us)) = filter P us"
  by (induction us) auto

lemma gather_take_pad:
  assumes "us \<noteq> []"
  shows "getitem us (Positions (take n (ps @ replicate n 0)))
       = take n (getitem us (Positions ps) @ replicate n (hd us))"
proof -
  have "us ! min 0 (length us - 1) = hd us" using assms by (simp add: hd_conv_nth)
  then show ?thesis by (simp add: take_map)
qed

lemma fill_after_valid:
  assumes "length fs = f"
  shows "map (\<lambda>(i, v). if i < f then v else fv) (zip (arange n) (take n (fs @ replicate n m)))
       = take n (fs @ replicate n fv)"
  using assms by (intro nth_equalityI) (auto simp: arange_def nth_append)

lemma lax_eq_value: "m \<noteq> NaN \<Longrightarrow> lax_eq x m \<longleftrightarrow> x = m"
  by (cases x; cases m) auto

lemma count_first_value:
  assumes "distinct us" "m \<in> set us" "m \<noteq> NaN"
  shows "length (filter (\<lambda>x. lax_eq x m) (us @ replicate k m)) = Suc k"
proof -
  have "filter (\<lambda>x. lax_eq x m) (us @ replicate k m) = filter (\<lambda>x. x = m) us @ replicate k m"
    using assms(3) by (simp add: lax_eq_value)
  moreover have "length (filter (\<lambda>x. x = m) us) = 1"
    using assms(1,2) by (induction us) (auto simp: filter_empty_conv)
  ultimately show ?thesis by simp
qed

lemma in1d_invert_map: "in1d a b au True = map (\<lambda>x. \<not> list_ex (\<lambda>y. lax_eq x y) b) a"
  by (simp add: in1d_def lax_ne_def list_all_iff list_ex_iff)

lemma mask_sum_map: "mask_sum (map P us) = length (filter P us)"
  using bool_index_length[of us "map P us"] by (simp only: gather_bool_map length_map)

text \<open>
  With a size \<open>n > 0\<close>, a left array with at least one entry and a smallest entry that
  is not NaN, \<^verbatim>\<open>setdiff1d\<close> computes the set difference of the spec: the padding that
  \<^verbatim>\<open>unique\<close> appended is counted by comparing with the first entry and masked out.
\<close>

lemma setdiff1d_sized:
  assumes wf: "wf_flat dt a" and ne: "a \<noteq> []" and n: "0 < n" and mn: "hd (sort a) \<noteq> NaN"
  shows "setdiff1d dt a b False (Some n) fv
       = Inr (setdiff_spec a b n (case fv of None \<Rightarrow> Val 0 | Some v \<Rightarrow> v))"
proof -
  let ?N = "length a"
  let ?U = "remdups_adj (sort a)"
  let ?u = "card (set a)"
  let ?m = "hd (sort a)"
  let ?k = "?N - ?u"
  let ?P = "\<lambda>x. \<not> list_ex (\<lambda>y. lax_eq x y) b"
  let ?a1 = "?U @ replicate ?k ?m"
  let ?M = "map ?P ?U @ replicate ?k False"
  let ?fv = "case fv of None \<Rightarrow> Val 0 | Some v \<Rightarrow> v"
  have "\<not> (\<exists>e. unique dt a False False False (Some ?N) None = Inl e)"
    using ne by (simp add: unique_raises)
  then obtain r where r: "unique dt a False False False (Some ?N) None = Inr r"
    by (cases "unique dt a False False False (Some ?N) None") auto
  have le: "?u \<le> ?N" by (rule card_length)
  have a1: "uvalues r = ?a1" by (rule unique_values_sized_no_fill[OF wf ne le r])
  have lu: "length ?U = ?u" using sorted_remdups_adj_card[of "sort a"] by simp
  have sne: "sort a \<noteq> []" by (rule sort_not_Nil[OF ne])
  then have Une: "?U \<noteq> []" by simp
  have hdU: "hd ?U = ?m" by simp
  have a1ne: "?a1 \<noteq> []" using Une by simp
  have hda1: "hd ?a1 = ?m" using Une hdU by simp
  have a10: "?a1 ! 0 = ?m" using hd_conv_nth[OF a1ne] hda1 by (simp only:)
  have la1: "length ?a1 = ?u + ?k" using lu by simp
  have dU: "distinct ?U" by (rule distinct_remdups_adj_sorted) simp
  have mU: "?m \<in> set ?U" using Une hdU by (metis hd_in_set)
  have cnt: "length (filter (\<lambda>x. lax_eq x (?a1 ! 0)) ?a1) = Suc ?k"
    unfolding a10 by (rule count_first_value[OF dU mU mn])
  have nu: "int (length ?a1) + 1 - int (length (filter (\<lambda>x. lax_eq x (?a1 ! 0)) ?a1)) = int ?u"
    unfolding cnt la1 by simp
  have msk: "in1d ?a1 b False True = map ?P ?a1" by (rule in1d_invert_map)
  have cut: "map (\<lambda>(i, m). if int i < int ?u then m else False)
               (zip (arange (length ?a1)) (map ?P ?a1)) = ?M"
    unfolding la1 by (rule cut_mask[OF lu])
  have ms: "mask_sum ?M = length (filter ?P ?U)"
    by (simp only: mask_sum_false_tail mask_sum_map)
  have "getitem ?a1 (Positions (nonzero (map ?P ?U))) = getitem ?U (Positions (nonzero (map ?P ?U)))"
    by (rule gather_prefix) (auto dest: nonzero_bound)
  also have "\<dots> = getitem ?U (BoolMask (map ?P ?U))"
    by (rule gather_nonzero) simp
  also have "\<dots> = filter ?P ?U" by (rule gather_bool_map)
  finally have sel: "getitem ?a1 (Positions (nonzero (map ?P ?U))) = filter ?P ?U" .
  have "getitem ?a1 (Positions (nonzero_size ?M n))
      = take n (getitem ?a1 (Positions (nonzero (map ?P ?U))) @ replicate n (hd ?a1))"
    unfolding nonzero_size_def nonzero_false_tail by (rule gather_take_pad[OF a1ne])
  then have g: "getitem ?a1 (Positions (nonzero_size ?M n))
      = take n (filter ?P ?U @ replicate n ?m)"
    by (simp only: sel hda1)
  have fin: "map (\<lambda>(i, v). if i < mask_sum ?M then v else ?fv)
               (zip (arange n) (getitem ?a1 (Positions (nonzero_size ?M n))))
           = take n (filter ?P ?U @ replicate n ?fv)"
    unfolding g ms by (rule fill_after_valid) simp
  have n0: "n \<noteq> 0" using n by simp
  have "setdiff1d dt a b False (Some n) fv
      = Inr (map (\<lambda>(i, v). if i < mask_sum ?M then v else ?fv)
               (zip (arange n) (getitem ?a1 (Positions (nonzero_size ?M n)))))"
    unfolding setdiff1d_def Let_def
    using ne n0 a1ne
    by (simp only: r a1 msk nu cut length_0_conv if_False if_True not_False_eq_True
        sum.case option.case simp_thms)
  then show ?thesis
    unfolding fin setdiff_spec_def .
qed

text \<open>
  C4 at an input of NaN only: \<^verbatim>\<open>unique([nan, nan], size=2)\<close> is \<^verbatim>\<open>[nan, nan]\<close> with one
  genuine value (the mask has one true entry) and one slot of padding, and
  \<^verbatim>\<open>setdiff1d([nan, nan], [], size=2, fill_value=0)\<close> returns both slots as values
  instead of the one distinct value followed by the fill value.
\<close>

theorem setdiff1d_nan_padding_survives:
  "unique Floating [NaN, NaN :: int elem] False False False (Some 2) None
     = Inr \<lparr>uvalues = [NaN, NaN], ret_index = None, ret_inverse = None,
            ret_counts = None, ret_true_size = None\<rparr>
   \<and> mask_sum (fst (snd (unique_sorted_mask (of_flat Floating [NaN, NaN :: int elem])))) = 1
   \<and> setdiff1d Floating [NaN, NaN :: int elem] [] False (Some 2) (Some (Val 0)) = Inr [NaN, NaN]
   \<and> setdiff1d Floating [NaN, NaN :: int elem] [] False (Some 2) (Some (Val 0)) \<noteq> Inr [NaN, Val 0]"
  by code_simp

section \<open>Intersection\<close>

lemma sort_mset_cong: "mset xs = mset ys \<Longrightarrow> sort xs = sort ys"
  by (rule properties_for_sort) auto

lemma intersect1d_sorted_mask_commute:
  "intersect1d_sorted_mask a b = intersect1d_sorted_mask b a"
  by (simp add: intersect1d_sorted_mask_def sort_mset_cong[of "a @ b" "b @ a"])

lemma lax_eq_iff: "lax_eq x y \<longleftrightarrow> x = y \<and> x \<noteq> NaN"
  by (cases x; cases y) auto

lemma select_adjacent_equal:
  "getitem (butlast (p # xs))
     (BoolMask (map (\<lambda>(x, y). lax_eq x y) (zip (tl (p # xs)) (butlast (p # xs)))))
   = adjacent_equal p xs"
  by (induction xs arbitrary: p) auto

lemma adjacent_equal_twice:
  "v \<in> set (adjacent_equal p xs) \<Longrightarrow> v \<noteq> NaN \<and> 2 \<le> count_list (p # xs) v"
proof (induction xs arbitrary: p)
  case Nil
  then show ?case by simp
next
  case (Cons x xs)
  show ?case
  proof (cases "lax_eq x p \<and> v = p")
    case True
    then show ?thesis by (auto simp: lax_eq_iff)
  next
    case False
    then have "v \<in> set (adjacent_equal x xs)"
      using Cons.prems by (auto split: if_splits)
    from Cons.IH[OF this] show ?thesis by auto
  qed
qed

lemma twice_adjacent_equal:
  "sorted (p # xs) \<Longrightarrow> v \<noteq> NaN \<Longrightarrow> 2 \<le> count_list (p # xs) v \<Longrightarrow>
   v \<in> set (adjacent_equal p xs)"
proof (induction xs arbitrary: p)
  case Nil
  then show ?case by (simp split: if_splits)
next
  case (Cons x xs)
  have srt: "sorted (x # xs)" and px: "p \<le> x" using Cons.prems(1) by auto
  show ?case
  proof (cases "v = p")
    case True
    then have "count_list (x # xs) p \<noteq> 0" using Cons.prems(3) by auto
    then have "p \<in> set (x # xs)" by (simp only: count_list_0_iff not_not)
    then have "x \<le> p" using srt by auto
    then have "x = p" using px by simp
    then show ?thesis using True Cons.prems(2) by (simp add: lax_eq_iff)
  next
    case False
    then have "2 \<le> count_list (x # xs) v" using Cons.prems(3) by simp
    from Cons.IH[OF srt Cons.prems(2) this] show ?thesis by simp
  qed
qed

lemma adjacent_equal_subset: "set (adjacent_equal p xs) \<subseteq> set (p # xs)"
  by (induction xs arbitrary: p) (auto split: if_splits)

lemma sorted_adjacent_equal: "sorted (p # xs) \<Longrightarrow> sorted (adjacent_equal p xs)"
proof (induction xs arbitrary: p)
  case Nil
  then show ?case by simp
next
  case (Cons x xs)
  have srt: "sorted (x # xs)" using Cons.prems by simp
  have "\<forall>y \<in> set (adjacent_equal x xs). p \<le> y"
    using adjacent_equal_subset[of x xs] Cons.prems by auto
  then show ?case using Cons.IH[OF srt] by (simp add: sorted_append)
qed

lemma distinct_adjacent_equal:
  "\<forall>v. count_list (p # xs) v \<le> 2 \<Longrightarrow> distinct (adjacent_equal p xs)"
proof (induction xs arbitrary: p)
  case Nil
  then show ?case by simp
next
  case (Cons x xs)
  have le: "\<forall>v. count_list (x # xs) v \<le> 2"
  proof
    fix v
    have "count_list (x # xs) v \<le> count_list (p # x # xs) v" by simp
    then show "count_list (x # xs) v \<le> 2" using Cons.prems by (meson le_trans)
  qed
  have d: "distinct (adjacent_equal x xs)" by (rule Cons.IH[OF le])
  have "p \<notin> set (adjacent_equal x xs)"
  proof
    assume "p \<in> set (adjacent_equal x xs)"
    then have "2 \<le> count_list (x # xs) p" using adjacent_equal_twice by blast
    then have "3 \<le> count_list (p # x # xs) p" by simp
    moreover have "count_list (p # x # xs) p \<le> 2" using Cons.prems by blast
    ultimately show False by linarith
  qed
  then show ?case using d by simp
qed

lemma count_list_distinct: "distinct us \<Longrightarrow> count_list us v = (if v \<in> set us then 1 else 0)"
  by (induction us) auto

lemma count_list_append: "count_list (us @ vs) v = count_list us v + count_list vs v"
  by (induction us) auto

lemma intersect_selection:
  assumes du: "distinct us" and dv: "distinct vs" and su: "sorted us"
  shows "getitem (butlast (sort (us @ vs)))
           (BoolMask (map (\<lambda>(x, y). lax_eq x y)
                        (zip (tl (sort (us @ vs))) (butlast (sort (us @ vs))))))
       = filter (\<lambda>x. x \<noteq> NaN \<and> x \<in> set vs) us"
proof (cases "sort (us @ vs)")
  case Nil
  then have "us @ vs = []" by (metis length_0_conv length_sort)
  then show ?thesis using Nil by simp
next
  case (Cons p xs)
  let ?r = "adjacent_equal p xs"
  have cnt: "count_list (p # xs) v = count_list us v + count_list vs v" for v
    using count_list_sort[of "us @ vs" v] Cons by (simp only: count_list_append)
  have le: "\<forall>v. count_list (p # xs) v \<le> 2"
    using cnt by (simp add: count_list_distinct[OF du] count_list_distinct[OF dv])
  have srt: "sorted (p # xs)" using Cons by (metis sorted_sort)
  have two: "2 \<le> count_list (p # xs) v \<longleftrightarrow> v \<in> set us \<and> v \<in> set vs" for v
    using cnt[of v] by (simp add: count_list_distinct[OF du] count_list_distinct[OF dv])
  have set_r: "set ?r = {x \<in> set us. x \<noteq> NaN \<and> x \<in> set vs}"
    using adjacent_equal_twice[of _ p xs] twice_adjacent_equal[OF srt] two by blast
  have "?r = filter (\<lambda>x. x \<noteq> NaN \<and> x \<in> set vs) us"
  proof (rule sorted_distinct_set_unique)
    show "sorted ?r" by (rule sorted_adjacent_equal[OF srt])
    show "distinct ?r" by (rule distinct_adjacent_equal[OF le])
    show "sorted (filter (\<lambda>x. x \<noteq> NaN \<and> x \<in> set vs) us)" using su sorted_filter[of "\<lambda>x. x" us] by simp
    show "distinct (filter (\<lambda>x. x \<noteq> NaN \<and> x \<in> set vs) us)" using du by simp
    show "set ?r = set (filter (\<lambda>x. x \<noteq> NaN \<and> x \<in> set vs) us)"
      using set_r by auto
  qed
  then show ?thesis
    unfolding Cons by (simp only: select_adjacent_equal)
qed

lemma intersect1d_values:
  assumes w1: "wf_flat dt1 a" and w2: "wf_flat dt2 b"
  shows "intersect1d dt1 a dt2 b False
       = Inr (filter (\<lambda>x. x \<noteq> NaN \<and> x \<in> set b) (remdups_adj (sort a)))"
proof -
  let ?U = "remdups_adj (sort a)"
  let ?V = "remdups_adj (sort b)"
  obtain r1 where r1: "unique dt1 a False False False None None = Inr r1"
    using unique_no_size_returns by blast
  obtain r2 where r2: "unique dt2 b False False False None None = Inr r2"
    using unique_no_size_returns by blast
  have u1: "uvalues r1 = ?U" by (rule unique_values_no_size[OF w1 r1])
  have u2: "uvalues r2 = ?V" by (rule unique_values_no_size[OF w2 r2])
  have du: "distinct ?U" by (rule distinct_remdups_adj_sorted) simp
  have dv: "distinct ?V" by (rule distinct_remdups_adj_sorted) simp
  have su: "sorted ?U" by simp
  have sel: "getitem (butlast (sort (?U @ ?V)))
           (BoolMask (map (\<lambda>(x, y). lax_eq x y)
                        (zip (tl (sort (?U @ ?V))) (butlast (sort (?U @ ?V))))))
       = filter (\<lambda>x. x \<noteq> NaN \<and> x \<in> set ?V) ?U"
    by (rule intersect_selection[OF du dv su])
  have "intersect1d dt1 a dt2 b False
      = Inr (getitem (butlast (sort (?U @ ?V)))
           (BoolMask (map (\<lambda>(x, y). lax_eq x y)
                        (zip (tl (sort (?U @ ?V))) (butlast (sort (?U @ ?V)))))))"
    by (simp add: intersect1d_def intersect1d_sorted_mask_def r1 r2 u1 u2 Let_def
        del: getitem.simps)
  then show ?thesis unfolding sel by simp
qed

text \<open>
  C8: \<^verbatim>\<open>intersect1d(a, b)\<close> and \<^verbatim>\<open>intersect1d(b, a)\<close> are the same array, whatever
  \<^verbatim>\<open>assume_unique\<close> is. Without \<^verbatim>\<open>assume_unique\<close> that array is the intersection in
  canonical order: the distinct entries of \<open>a\<close>, sorted, that compare equal (\<^verbatim>\<open>==\<close>) to
  some entry of \<open>b\<close>; it is sorted, free of duplicates, and NaN is never in it.
\<close>

theorem intersect1d_commute:
  "intersect1d dt1 a dt2 b au = intersect1d dt2 b dt1 a au
   \<and> (wf_flat dt1 a \<and> wf_flat dt2 b \<longrightarrow>
        (\<exists>r. intersect1d dt1 a dt2 b False = Inr r
             \<and> intersect1d dt2 b dt1 a False = Inr r
             \<and> r = filter (\<lambda>x. x \<noteq> NaN \<and> x \<in> set b) (remdups_adj (sort a))
             \<and> sorted r \<and> distinct r
             \<and> set r = {x \<in> set a. \<exists>y \<in> set b. lax_eq x y}))"
proof -
  have comm: "intersect1d dt1 a dt2 b au' = intersect1d dt2 b dt1 a au'" for au'
  proof (cases au')
    case True
    then show ?thesis
      by (simp add: intersect1d_def intersect1d_sorted_mask_commute[of a b])
  next
    case False
    obtain r1 where r1: "unique dt1 a False False False None None = Inr r1"
      using unique_no_size_returns by blast
    obtain r2 where r2: "unique dt2 b False False False None None = Inr r2"
      using unique_no_size_returns by blast
    show ?thesis
      using False r1 r2
      by (simp add: intersect1d_def intersect1d_sorted_mask_commute[of "uvalues r1" "uvalues r2"])
  qed
  have content: "\<exists>r. intersect1d dt1 a dt2 b False = Inr r
             \<and> intersect1d dt2 b dt1 a False = Inr r
             \<and> r = filter (\<lambda>x. x \<noteq> NaN \<and> x \<in> set b) (remdups_adj (sort a))
             \<and> sorted r \<and> distinct r
             \<and> set r = {x \<in> set a. \<exists>y \<in> set b. lax_eq x y}"
    if w: "wf_flat dt1 a" "wf_flat dt2 b"
  proof -
    let ?r = "filter (\<lambda>x. x \<noteq> NaN \<and> x \<in> set b) (remdups_adj (sort a))"
    have v: "intersect1d dt1 a dt2 b False = Inr ?r"
      by (rule intersect1d_values[OF w])
    then have v': "intersect1d dt2 b dt1 a False = Inr ?r"
      using comm[of False] by simp
    have s: "sorted ?r"
      using sorted_filter[of "\<lambda>x. x" "remdups_adj (sort a)"] by simp
    have d: "distinct ?r"
      using distinct_remdups_adj_sorted[of "sort a"] by simp
    have st: "set ?r = {x \<in> set a. \<exists>y \<in> set b. lax_eq x y}"
      by (auto simp: lax_eq_iff)
    from v v' s d st show ?thesis by blast
  qed
  from comm[of au] content show ?thesis by blast
qed

theorem intersect1d_commute_witness:
  "wf_flat Integral [Val 3, Val 1, Val 2, Val (3::int)]
   \<and> wf_flat Floating [NaN, Val 4, Val 3, Val (2::int)]
   \<and> intersect1d Integral [Val 3, Val 1, Val 2, Val (3::int)] Floating [NaN, Val 4, Val 3, Val 2] False
       = Inr [Val 2, Val 3]
   \<and> intersect1d Floating [NaN, Val 4, Val 3, Val (2::int)] Integral [Val 3, Val 1, Val 2, Val 3] False
       = Inr [Val 2, Val 3]
   \<and> intersect1d Floating [NaN, Val (1::int)] Floating [Val 1, NaN] False = Inr [Val 1]"
proof -
  have w1: "wf_flat Integral [Val 3, Val 1, Val 2, Val (3::int)]" by code_simp
  have w2: "wf_flat Floating [NaN, Val 4, Val 3, Val (2::int)]" by code_simp
  have e1: "intersect1d Integral [Val 3, Val 1, Val 2, Val (3::int)] Floating [NaN, Val 4, Val 3, Val 2] False
       = Inr [Val 2, Val 3]"
    by code_simp
  have e2: "intersect1d Floating [NaN, Val (1::int)] Floating [Val 1, NaN] False = Inr [Val 1]"
    by code_simp
  from intersect1d_commute[of Integral "[Val 3, Val 1, Val 2, Val (3::int)]"
        Floating "[NaN, Val 4, Val 3, Val 2]" False] w1 w2
  obtain r where a: "intersect1d Integral [Val 3, Val 1, Val 2, Val (3::int)]
                       Floating [NaN, Val 4, Val 3, Val 2] False = Inr r"
    and b: "intersect1d Floating [NaN, Val 4, Val 3, Val (2::int)]
              Integral [Val 3, Val 1, Val 2, Val 3] False = Inr r"
    by blast
  from a e1 have "r = [Val 2, Val 3]" by (simp only: sum.inject)
  with b have e3: "intersect1d Floating [NaN, Val 4, Val 3, Val (2::int)]
              Integral [Val 3, Val 1, Val 2, Val 3] False = Inr [Val 2, Val 3]"
    by (simp only:)
  from w1 w2 e1 e3 e2 show ?thesis by blast
qed

end
